theory Spec2Isabelle
  imports Main "HOL-Library.Word"
begin

section \<open>JavaScript values used by the plugin\<close>

text \<open>
  A JavaScript string is a sequence of 16-bit code units. Tokens, tags, attributes and
  markup are modelled with \<^typ>\<open>string\<close>, whose characters hold the code units 0 to 255
  (ASCII and Latin-1); on that range the library functions below (\<open>trim\<close>,
  \<open>toLowerCase\<close>, the class \<open>\s\<close>, \<open>encodeURIComponent\<close>, \<open>parseInt\<close>) are written out as
  ECMAScript defines them. The slug function is modelled a second time on arbitrary
  strings, as lists of 16-bit words, and the two models are proved to agree on the
  strings of the first. A value that may be \<open>null\<close> is an \<open>option\<close>.
\<close>

datatype error = TypeError | RangeError | URIError | Thrown string

text \<open>Truthiness of a string-or-null value: \<open>null\<close> and the empty string are falsy.\<close>

fun truthy :: "string option \<Rightarrow> bool" where
  "truthy None = False"
| "truthy (Some s) = (s \<noteq> [])"

text \<open>White space and line terminators of ECMAScript below code unit 256: TAB, LF, VT, FF,
  CR, SPACE and NBSP. \<open>String.prototype.trim\<close> and the regular expression class \<open>\s\<close>
  use the same set.\<close>

definition isWhiteSpace :: "char \<Rightarrow> bool" where
  "isWhiteSpace c = (let n = (of_char c :: nat) in (9 \<le> n \<and> n \<le> 13) \<or> n = 32 \<or> n = 160)"

definition trim :: "string \<Rightarrow> string" where
  "trim s = rev (dropWhile isWhiteSpace (rev (dropWhile isWhiteSpace s)))"

text \<open>\<open>toLowerCase\<close>: A to Z, and the Latin-1 capitals 192 to 222 except the
  multiplication sign 215, move up by 32.\<close>

definition lowerChar :: "char \<Rightarrow> char" where
  "lowerChar c = (let n = (of_char c :: nat) in
     if (65 \<le> n \<and> n \<le> 90) \<or> (192 \<le> n \<and> n \<le> 222 \<and> n \<noteq> 215) then char_of (n + 32) else c)"

definition toLowerCase :: "string \<Rightarrow> string" where
  "toLowerCase s = map lowerChar s"

text \<open>\<open>s.replace(/\s+/g, '-')\<close>: every maximal run of white space becomes one hyphen.\<close>

function replaceWhiteSpaceRuns :: "string \<Rightarrow> string" where
  "replaceWhiteSpaceRuns [] = []"
| "replaceWhiteSpaceRuns (c # cs) =
     (if isWhiteSpace c then CHR ''-'' # replaceWhiteSpaceRuns (dropWhile isWhiteSpace cs)
      else c # replaceWhiteSpaceRuns cs)"
  by pat_completeness auto
termination
  by (relation "measure length") (auto simp: length_dropWhile_le less_Suc_eq_le)

text \<open>\<open>encodeURIComponent\<close>: letters, digits and \<open>- _ . ! ~ * ' ( )\<close> stay; every other
  code unit is written as the percent-escaped bytes of its UTF-8 encoding (one byte below
  128, two bytes from 128 to 255), with upper-case hexadecimal digits.\<close>

definition hexDigit :: "nat \<Rightarrow> char" where
  "hexDigit k = (if k < 10 then char_of (48 + k) else char_of (55 + k))"

definition percentByte :: "nat \<Rightarrow> string" where
  "percentByte b = [CHR ''%'', hexDigit (b div 16 mod 16), hexDigit (b mod 16)]"

definition uriUnreserved :: "char \<Rightarrow> bool" where
  "uriUnreserved c = (let n = (of_char c :: nat) in
     (65 \<le> n \<and> n \<le> 90) \<or> (97 \<le> n \<and> n \<le> 122) \<or> (48 \<le> n \<and> n \<le> 57)
     \<or> c \<in> set ''-_.!~*'()'')"

definition encodeChar :: "char \<Rightarrow> string" where
  "encodeChar c = (let n = (of_char c :: nat) in
     if uriUnreserved c then [c]
     else if n < 128 then percentByte n
     else percentByte (192 + n div 64) @ percentByte (128 + n mod 64))"

definition encodeURIComponent :: "string \<Rightarrow> string" where
  "encodeURIComponent s = concat (map encodeChar s)"

text \<open>\<open>parseInt(s, 10)\<close>: leading white space is skipped, a sign is read, then the longest
  run of decimal digits; \<open>NaN\<close> (here \<open>None\<close>) when there is no digit.\<close>

definition isDigit :: "char \<Rightarrow> bool" where
  "isDigit c = (let n = (of_char c :: nat) in 48 \<le> n \<and> n \<le> 57)"

definition digitsValue :: "string \<Rightarrow> int" where
  "digitsValue ds = foldl (\<lambda>a d. 10 * a + (int (of_char d) - 48)) 0 ds"

definition parseDigits :: "string \<Rightarrow> int option" where
  "parseDigits s = (let ds = takeWhile isDigit s in if ds = [] then None else Some (digitsValue ds))"

definition parseInt :: "string \<Rightarrow> int option" where
  "parseInt str = (case dropWhile isWhiteSpace str of
       [] \<Rightarrow> None
     | c # cs \<Rightarrow>
         if c = CHR ''-'' then map_option uminus (parseDigits cs)
         else if c = CHR ''+'' then parseDigits cs
         else parseDigits (c # cs))"

section \<open>Step 0: the slug function and the options\<close>

text \<open>\<open>slugify\<close> of \<open>index.js\<close>:
  \<open>encodeURIComponent(String(s).trim().toLowerCase().replace(/\s+/g, '-'))\<close>, on the strings of
  code units below 256. The section after this one has it on arbitrary strings.\<close>

definition slugify :: "string \<Rightarrow> string" where
  "slugify s = encodeURIComponent (replaceWhiteSpaceRuns (toLowerCase (trim s)))"

text \<open>A regular expression is taken by what \<open>exec\<close> returns on a string: \<open>None\<close> for
  \<open>null\<close>, otherwise the match array (the whole match, then the groups; an unmatched
  group is \<open>None\<close>).\<close>

type_synonym regexp = "string \<Rightarrow> string option list option"

record options =
  includeLevel :: "int list"
  containerClass :: string
  slugifyFn :: "string \<Rightarrow> string \<Rightarrow> string"
  markerPattern :: regexp
  listType :: string
  format :: "string \<Rightarrow> string option \<Rightarrow> string"
  forceFullToc :: bool
  containerHeaderHtml :: "string option"
  containerFooterHtml :: "string option"
  transformLink :: "(string option \<Rightarrow> string option) option"
  listAttrs :: string

text \<open>The default marker pattern \<open>/^\[\[toc\]\]/im\<close>: with the flag \<open>m\<close> the anchor \<open>^\<close>
  matches at the start of the input and after every line terminator, with the flag \<open>i\<close>
  letters match in either case; \<open>exec\<close> returns the leftmost match.\<close>

definition isLineTerminator :: "char \<Rightarrow> bool" where
  "isLineTerminator c = (c = CHR 0x0A \<or> c = CHR 0x0D)"

definition matchesTocAt :: "string \<Rightarrow> bool" where
  "matchesTocAt s = (toLowerCase (take 7 s) = ''[[toc]]'')"

fun execTocFrom :: "bool \<Rightarrow> string \<Rightarrow> string option list option" where
  "execTocFrom lineStart [] = None"
| "execTocFrom lineStart (c # cs) =
     (if lineStart \<and> matchesTocAt (c # cs) then Some [Some (take 7 (c # cs))]
      else execTocFrom (isLineTerminator c) cs)"

definition defaultMarkerPattern :: regexp where
  "defaultMarkerPattern s = execTocFrom True s"

text \<open>\<open>defaults\<close>. The default \<open>format\<close> calls the host's \<open>md.renderInline\<close>, which is a
  parameter here.\<close>

definition defaults :: "(string \<Rightarrow> string) \<Rightarrow> options" where
  "defaults renderInline =
     \<lparr> includeLevel = [1, 2],
       containerClass = ''table-of-contents'',
       slugifyFn = (\<lambda>s raw. slugify s),
       markerPattern = defaultMarkerPattern,
       listType = ''ul'',
       format = (\<lambda>content anchor. renderInline content),
       forceFullToc = False,
       containerHeaderHtml = None,
       containerFooterHtml = None,
       transformLink = None,
       listAttrs = [] \<rparr>"

section \<open>The slug function on arbitrary strings\<close>

text \<open>The same function on arbitrary JavaScript strings: lists of 16-bit code units, among
  them the surrogates. White space is the full set of \<open>trim\<close> and \<open>\s\<close>: TAB to CR, SPACE,
  NBSP, U+1680, U+2000 to U+200A, U+2028, U+2029, U+202F, U+205F, U+3000 and U+FEFF.\<close>

type_synonym codeUnit = "16 word"

definition isUnitWhiteSpace :: "codeUnit \<Rightarrow> bool" where
  "isUnitWhiteSpace u = (let n = unat u in
     (9 \<le> n \<and> n \<le> 13) \<or> n = 32 \<or> n = 160 \<or> n = 5760 \<or> (8192 \<le> n \<and> n \<le> 8202) \<or>
     n = 8232 \<or> n = 8233 \<or> n = 8239 \<or> n = 8287 \<or> n = 12288 \<or> n = 65279)"

definition trimUnits :: "codeUnit list \<Rightarrow> codeUnit list" where
  "trimUnits s = rev (dropWhile isUnitWhiteSpace (rev (dropWhile isUnitWhiteSpace s)))"

function replaceUnitRuns :: "codeUnit list \<Rightarrow> codeUnit list" where
  "replaceUnitRuns [] = []"
| "replaceUnitRuns (c # cs) =
     (if isUnitWhiteSpace c then 45 # replaceUnitRuns (dropWhile isUnitWhiteSpace cs)
      else c # replaceUnitRuns cs)"
  by pat_completeness auto
termination
  by (relation "measure length") (auto simp: length_dropWhile_le less_Suc_eq_le)

text \<open>\<open>encodeURIComponent\<close> as ECMAScript defines it: an unreserved unit stays; a unit that
  is no surrogate, or a high surrogate with the low surrogate after it, is one code point,
  written as the percent-escaped bytes of its UTF-8 form; a low surrogate that follows no
  high one, and a high surrogate that no low one follows, throw a \<open>URIError\<close>.\<close>

definition isHighSurrogate :: "codeUnit \<Rightarrow> bool" where
  "isHighSurrogate u = (55296 \<le> unat u \<and> unat u \<le> 56319)"

definition isLowSurrogate :: "codeUnit \<Rightarrow> bool" where
  "isLowSurrogate u = (56320 \<le> unat u \<and> unat u \<le> 57343)"

definition unitUnreserved :: "codeUnit \<Rightarrow> bool" where
  "unitUnreserved u = (let n = unat u in
     (65 \<le> n \<and> n \<le> 90) \<or> (97 \<le> n \<and> n \<le> 122) \<or> (48 \<le> n \<and> n \<le> 57) \<or>
     n \<in> {45, 95, 46, 33, 126, 42, 39, 40, 41})"

definition utf8 :: "nat \<Rightarrow> nat list" where
  "utf8 v =
     (if v < 128 then [v]
      else if v < 2048 then [192 + v div 64, 128 + v mod 64]
      else if v < 65536 then [224 + v div 4096, 128 + v div 64 mod 64, 128 + v mod 64]
      else [240 + v div 262144, 128 + v div 4096 mod 64, 128 + v div 64 mod 64, 128 + v mod 64])"

definition hexUnit :: "nat \<Rightarrow> codeUnit" where
  "hexUnit k = of_nat (if k < 10 then 48 + k else 55 + k)"

definition percentUnits :: "nat \<Rightarrow> codeUnit list" where
  "percentUnits b = [37, hexUnit (b div 16 mod 16), hexUnit (b mod 16)]"

definition escapeUnits :: "nat \<Rightarrow> codeUnit list" where
  "escapeUnits v = concat (map percentUnits (utf8 v))"

definition pairCodePoint :: "codeUnit \<Rightarrow> codeUnit \<Rightarrow> nat" where
  "pairCodePoint hi lo = (unat hi - 55296) * 1024 + (unat lo - 56320) + 65536"

fun encodeURIComponentUnits :: "codeUnit list \<Rightarrow> error + codeUnit list" where
  "encodeURIComponentUnits [] = Inr []"
| "encodeURIComponentUnits (c # cs) =
     (if unitUnreserved c then map_sum id ((#) c) (encodeURIComponentUnits cs)
      else if isLowSurrogate c then Inl URIError
      else if \<not> isHighSurrogate c
        then map_sum id ((@) (escapeUnits (unat c))) (encodeURIComponentUnits cs)
      else (case cs of
              [] \<Rightarrow> Inl URIError
            | k # ks \<Rightarrow>
                if \<not> isLowSurrogate k then Inl URIError
                else map_sum id ((@) (escapeUnits (pairCodePoint c k))) (encodeURIComponentUnits ks)))"

text \<open>\<open>slugify\<close> on arbitrary strings. \<open>toLowerCase\<close> depends on the case table of the
  engine, which may change the length of the text; it is the parameter \<open>toLower\<close>.\<close>

definition slugifyUnits :: "(codeUnit list \<Rightarrow> codeUnit list) \<Rightarrow> codeUnit list \<Rightarrow> error + codeUnit list" where
  "slugifyUnits toLower s = encodeURIComponentUnits (replaceUnitRuns (toLower (trimUnits s)))"

text \<open>A string is well formed when every surrogate is one half of a pair; \<open>codePoints\<close>
  reads its code points.\<close>

fun wellFormedUnits :: "codeUnit list \<Rightarrow> bool" where
  "wellFormedUnits [] = True"
| "wellFormedUnits (c # cs) =
     (if isHighSurrogate c
      then (case cs of [] \<Rightarrow> False | k # ks \<Rightarrow> isLowSurrogate k \<and> wellFormedUnits ks)
      else \<not> isLowSurrogate c \<and> wellFormedUnits cs)"

fun codePoints :: "codeUnit list \<Rightarrow> nat list" where
  "codePoints [] = []"
| "codePoints (c # cs) =
     (if isHighSurrogate c
      then (case cs of
              [] \<Rightarrow> [unat c]
            | k # ks \<Rightarrow> if isLowSurrogate k then pairCodePoint c k # codePoints ks
                        else unat c # codePoints (k # ks))
      else unat c # codePoints cs)"

text \<open>What a percent-encoded string looks like, and the bytes it stands for.\<close>

definition isHexUnit :: "codeUnit \<Rightarrow> bool" where
  "isHexUnit u = (let n = unat u in (48 \<le> n \<and> n \<le> 57) \<or> (65 \<le> n \<and> n \<le> 70))"

fun percentEncoded :: "codeUnit list \<Rightarrow> bool" where
  "percentEncoded [] = True"
| "percentEncoded (c # cs) =
     (if c = 37
      then (case cs of
              h1 # h2 # rest \<Rightarrow> isHexUnit h1 \<and> isHexUnit h2 \<and> percentEncoded rest
            | _ \<Rightarrow> False)
      else unitUnreserved c \<and> percentEncoded cs)"

definition hexValue :: "codeUnit \<Rightarrow> nat" where
  "hexValue u = (let n = unat u in if n \<le> 57 then n - 48 else n - 55)"

fun percentDecode :: "codeUnit list \<Rightarrow> nat list" where
  "percentDecode [] = []"
| "percentDecode (c # cs) =
     (if c = 37
      then (case cs of
              h1 # h2 # rest \<Rightarrow> (16 * hexValue h1 + hexValue h2) # percentDecode rest
            | _ \<Rightarrow> [])
      else unat c # percentDecode cs)"

text \<open>The strings of the rest of the model as lists of code units, and \<open>toLowerCase\<close> on
  the letters below code unit 256 (it leaves every other unit as it is).\<close>

definition unitOf :: "char \<Rightarrow> codeUnit" where
  "unitOf c = of_nat (of_char c)"

definition unitsOf :: "string \<Rightarrow> codeUnit list" where
  "unitsOf s = map unitOf s"

definition lowerLatin1Unit :: "codeUnit \<Rightarrow> codeUnit" where
  "lowerLatin1Unit u = (let n = unat u in
     if (65 \<le> n \<and> n \<le> 90) \<or> (192 \<le> n \<and> n \<le> 222 \<and> n \<noteq> 215) then u + 32 else u)"

definition lowerLatin1 :: "codeUnit list \<Rightarrow> codeUnit list" where
  "lowerLatin1 s = map lowerLatin1Unit s"

section \<open>Step 1: gathering the headlines\<close>

record childToken =
  c_type :: string
  c_content :: string

record token =
  tk_type :: string
  tk_tag :: string
  tk_attrs :: "string list list option"
  tk_children :: "childToken list"
  tk_content :: string
  tk_markup :: string
  tk_nesting :: int

record headlineItem =
  h_level :: int
  h_anchor :: "string option"
  h_text :: "string option"

text \<open>\<open>findExistingIdAttr\<close>: the value of the first attribute pair whose name is \<open>id\<close>,
  else \<open>null\<close>.\<close>

definition findExistingIdAttr :: "token \<Rightarrow> string option" where
  "findExistingIdAttr tok =
     (case tk_attrs tok of
        None \<Rightarrow> None
      | Some attrs \<Rightarrow>
          (case find (\<lambda>attr. length attr \<ge> 2 \<and> attr ! 0 = ''id'') attrs of
             None \<Rightarrow> None
           | Some idAttr \<Rightarrow> Some (idAttr ! 1)))"

text \<open>\<open>parseInt(token.tag.toLowerCase().replace('h', ''), 10)\<close>; \<open>replace\<close> with a string
  pattern removes the first occurrence only.\<close>

definition tagLevel :: "token \<Rightarrow> int option" where
  "tagLevel tok = parseInt (remove1 CHR ''h'' (toLowerCase (tk_tag tok)))"

text \<open>The inline text of a heading: the contents of its \<open>text\<close> and \<open>code_inline\<close>
  children, concatenated.\<close>

definition textContent :: "token \<Rightarrow> string" where
  "textContent tok =
     foldl (\<lambda>acc t. acc @ c_content t) []
       (filter (\<lambda>childToken. c_type childToken = ''text'' \<or> c_type childToken = ''code_inline'')
          (tk_children tok))"

text \<open>The body of the \<open>forEach\<close> of \<open>findHeadlineElements\<close>; the state is the pair of
  \<open>headings\<close> and \<open>currentHeading\<close>.\<close>

definition headlineStep ::
  "int list \<Rightarrow> options \<Rightarrow> headlineItem list \<times> headlineItem option \<Rightarrow> token
     \<Rightarrow> headlineItem list \<times> headlineItem option" where
  "headlineStep levels opts st tok =
     (let headings = fst st; currentHeading = snd st in
      if tk_type tok = ''heading_open'' then
        (let id = findExistingIdAttr tok in
         case tagLevel tok of
           None \<Rightarrow> (headings, currentHeading)
         | Some lvl \<Rightarrow>
             if lvl \<in> set levels
             then (headings,
                   Some \<lparr> h_level = lvl,
                          h_anchor = (if truthy id then id else None),
                          h_text = None \<rparr>)
             else (headings, currentHeading))
      else if currentHeading \<noteq> None \<and> tk_type tok = ''inline'' then
        (let cur = the currentHeading;
             txt = textContent tok;
             cur1 = cur\<lparr> h_text := Some txt \<rparr>;
             cur2 = (if \<not> truthy (h_anchor cur1)
                     then cur1\<lparr> h_anchor := Some (slugifyFn opts txt (tk_content tok)) \<rparr>
                     else cur1)
         in (headings, Some cur2))
      else if tk_type tok = ''heading_close'' then
        (case currentHeading of
           None \<Rightarrow> (headings, None)
         | Some cur \<Rightarrow> (headings @ [cur], None))
      else (headings, currentHeading))"

definition findHeadlineElements :: "int list \<Rightarrow> token list \<Rightarrow> options \<Rightarrow> headlineItem list" where
  "findHeadlineElements levels tokens opts = fst (foldl (headlineStep levels opts) ([], None) tokens)"

section \<open>Step 2: from the flat list to the nested tree\<close>

text \<open>A level is a JavaScript number: a headline's level is an integer, the level of the
  root is \<open>Math.min(...) - 1\<close>, which is \<open>Infinity\<close> when there is no headline.\<close>

datatype jsnum = Num int | Infinity

fun jsMin :: "jsnum \<Rightarrow> jsnum \<Rightarrow> jsnum" where
  "jsMin (Num a) (Num b) = Num (min a b)"
| "jsMin (Num a) Infinity = Num a"
| "jsMin Infinity b = b"

fun jsMinus1 :: "jsnum \<Rightarrow> jsnum" where
  "jsMinus1 (Num a) = Num (a - 1)"
| "jsMinus1 Infinity = Infinity"

text \<open>\<open>getMinLevel\<close>: \<open>Math.min\<close> of no argument is \<open>Infinity\<close>.\<close>

definition getMinLevel :: "headlineItem list \<Rightarrow> jsnum" where
  "getMinLevel headlineItems = fold (\<lambda>item m. jsMin m (Num (h_level item))) headlineItems Infinity"

text \<open>The TOC items are objects that point at each other (\<open>children\<close> down, \<open>parent\<close> up)
  and are updated in place, so they live in a heap: the list of all objects created so
  far, an object's address being its index. The root \<open>toc\<close> is created first, at
  address 0.\<close>

record tocItem =
  t_level :: jsnum
  t_text :: "string option"
  t_anchor :: "string option"
  t_children :: "nat list"
  t_parent :: "nat option"

type_synonym heap = "tocItem list"

text \<open>\<open>addListItem\<close>: creates the item and pushes it onto the children of \<open>rootNode\<close>;
  returns the new item (its address) and the heap.\<close>

definition addListItem ::
  "int \<Rightarrow> string option \<Rightarrow> string option \<Rightarrow> nat \<Rightarrow> heap \<Rightarrow> nat \<times> heap" where
  "addListItem lvl txt anc rootNode hp =
     (let listItem = length hp;
          hp1 = hp @ [\<lparr> t_level = Num lvl, t_text = txt, t_anchor = anc,
                        t_children = [], t_parent = Some rootNode \<rparr>];
          hp2 = hp1[rootNode := (hp1 ! rootNode)\<lparr> t_children := t_children (hp1 ! rootNode) @ [listItem] \<rparr>]
      in (listItem, hp2))"

record builder =
  heap :: heap
  currentRootNode :: nat
  prevListItem :: nat

text \<open>The inner \<open>forEach\<close> of the branch for a bigger level: each round makes the previous
  item the current root and adds an empty item, with the headline's level, under it.\<close>

fun descend :: "nat \<Rightarrow> int \<Rightarrow> builder \<Rightarrow> builder" where
  "descend 0 lvl b = b"
| "descend (Suc k) lvl b =
     (let cur = prevListItem b;
          (item, hp) = addListItem lvl None None cur (heap b)
      in descend k lvl \<lparr> heap = hp, currentRootNode = cur, prevListItem = item \<rparr>)"

text \<open>The \<open>for\<close> loop of the branch for a smaller level: \<open>currentRootNode\<close> moves to its
  parent. When the parent is \<open>null\<close>, the next round (or the \<open>addListItem\<close> after the
  loop) reads a property of \<open>null\<close>, which throws a \<open>TypeError\<close> before anything else
  is changed.\<close>

fun ascend :: "nat \<Rightarrow> heap \<Rightarrow> nat \<Rightarrow> error + nat" where
  "ascend 0 hp cur = Inr cur"
| "ascend (Suc k) hp cur =
     (case t_parent (hp ! cur) of
        None \<Rightarrow> Inl TypeError
      | Some p \<Rightarrow> ascend k hp p)"

text \<open>The body of the outer \<open>forEach\<close>. When the previous item's level is \<open>Infinity\<close>
  every headline's level is smaller, and the \<open>for\<close> loop climbs without bound until it
  reads the parent of \<open>null\<close>.\<close>

definition treeStep :: "builder \<Rightarrow> headlineItem \<Rightarrow> error + builder" where
  "treeStep b headlineItem =
     (case t_level (heap b ! prevListItem b) of
        Infinity \<Rightarrow> Inl TypeError
      | Num prevLevel \<Rightarrow>
          if h_level headlineItem > prevLevel then
            (let b1 = descend (nat (h_level headlineItem - prevLevel)) (h_level headlineItem) b;
                 prev = prevListItem b1
             in Inr (b1\<lparr> heap := (heap b1)[prev := (heap b1 ! prev)
                           \<lparr> t_text := h_text headlineItem, t_anchor := h_anchor headlineItem \<rparr>] \<rparr>))
          else if h_level headlineItem = prevLevel then
            (let (item, hp) = addListItem (h_level headlineItem) (h_text headlineItem)
                                (h_anchor headlineItem) (currentRootNode b) (heap b)
             in Inr (b\<lparr> heap := hp, prevListItem := item \<rparr>))
          else
            (case ascend (nat (prevLevel - h_level headlineItem)) (heap b) (currentRootNode b) of
               Inl e \<Rightarrow> Inl e
             | Inr cur \<Rightarrow>
                 (let (item, hp) = addListItem (h_level headlineItem) (h_text headlineItem)
                                     (h_anchor headlineItem) cur (heap b)
                  in Inr \<lparr> heap = hp, currentRootNode = cur, prevListItem = item \<rparr>)))"

fun treeLoop :: "builder \<Rightarrow> headlineItem list \<Rightarrow> error + builder" where
  "treeLoop b [] = Inr b"
| "treeLoop b (headlineItem # rest) =
     (case treeStep b headlineItem of
        Inl e \<Rightarrow> Inl e
      | Inr b1 \<Rightarrow> treeLoop b1 rest)"

definition initialBuilder :: "headlineItem list \<Rightarrow> builder" where
  "initialBuilder headlineItems =
     \<lparr> heap = [\<lparr> t_level = jsMinus1 (getMinLevel headlineItems), t_text = None, t_anchor = None,
                 t_children = [], t_parent = None \<rparr>],
       currentRootNode = 0, prevListItem = 0 \<rparr>"

text \<open>\<open>flatHeadlineItemsToNestedTree\<close> returns \<open>toc\<close>, the object at address 0 of the
  final heap.\<close>

definition flatHeadlineItemsToNestedTree :: "headlineItem list \<Rightarrow> error + heap" where
  "flatHeadlineItemsToNestedTree headlineItems =
     (case treeLoop (initialBuilder headlineItems) headlineItems of
        Inl e \<Rightarrow> Inl e
      | Inr b \<Rightarrow> Inr (heap b))"

text \<open>The nodes the loop filled from a descriptor: \<open>prevListItem\<close> at the end of each
  round of the outer \<open>forEach\<close> (lines 157-158, 162 and 169 of \<open>index.js\<close>). Every other
  node but the root is a synthetic node.\<close>

fun filledNodes :: "builder \<Rightarrow> headlineItem list \<Rightarrow> nat list" where
  "filledNodes b [] = []"
| "filledNodes b (headlineItem # rest) =
     (case treeStep b headlineItem of
        Inl e \<Rightarrow> []
      | Inr b1 \<Rightarrow> prevListItem b1 # filledNodes b1 rest)"

text \<open>The nodes each round of the outer \<open>forEach\<close> creates, each with the level of the
  headline the round inserts: the heap only grows, by one object per call of
  \<open>addListItem\<close>, so they are the addresses from the length of the heap before the round
  up to its length after it.\<close>

fun createdNodes :: "builder \<Rightarrow> headlineItem list \<Rightarrow> (nat \<times> int) list" where
  "createdNodes b [] = []"
| "createdNodes b (headlineItem # rest) =
     (case treeStep b headlineItem of
        Inl e \<Rightarrow> []
      | Inr b1 \<Rightarrow>
          map (\<lambda>a. (a, h_level headlineItem)) [length (heap b) ..< length (heap b1)] @
          createdNodes b1 rest)"

text \<open>The object graph below an item, read as a tree by following \<open>children\<close>; each node
  keeps its address. The first argument bounds the depth: in a heap of \<open>n\<close> objects a
  path of more than \<open>n\<close> items repeats one, and the recursion of the renderer would not
  end.\<close>

datatype tocTree = TocTree (n_addr: nat) (n_level: jsnum) (n_text: "string option")
  (n_anchor: "string option") (n_children: "tocTree list")

fun readTree :: "nat \<Rightarrow> heap \<Rightarrow> nat \<Rightarrow> tocTree option" where
  "readTree 0 hp a = None"
| "readTree (Suc n) hp a =
     (if a < length hp then
        (case those (map (readTree n hp) (t_children (hp ! a))) of
           None \<Rightarrow> None
         | Some cs \<Rightarrow> Some (TocTree a (t_level (hp ! a)) (t_text (hp ! a)) (t_anchor (hp ! a)) cs))
      else None)"

definition buildTree :: "headlineItem list \<Rightarrow> error + tocTree" where
  "buildTree headlineItems =
     (case flatHeadlineItemsToNestedTree headlineItems of
        Inl e \<Rightarrow> Inl e
      | Inr hp \<Rightarrow> (case readTree (length hp) hp 0 of None \<Rightarrow> Inl RangeError | Some t \<Rightarrow> Inr t))"

section \<open>Step 3: from the tree to HTML\<close>

text \<open>\<open>tocItemToHtml\<close>, and the arrow function it maps over the children (here
  \<open>childItemToHtml\<close>; it sees \<open>options\<close> and \<open>counter\<close> of the enclosing call). In the
  template literal a \<open>null\<close> text prints as \<open>null\<close>.\<close>

fun tocItemToHtml :: "tocTree \<Rightarrow> options \<Rightarrow> nat \<Rightarrow> string"
  and childItemToHtml :: "tocTree \<Rightarrow> options \<Rightarrow> nat \<Rightarrow> string" where
  \<open>tocItemToHtml (TocTree a lvl txt anc children) opts counter =
     (let extraAttributes = (if counter = 0 \<and> listAttrs opts \<noteq> [] then '' '' @ listAttrs opts else [])
      in ''<'' @ listType opts @ extraAttributes @ ''>'' @
         concat (map (\<lambda>childItem. childItemToHtml childItem opts counter) children) @
         ''</'' @ listType opts @ ''>'')\<close>
| \<open>childItemToHtml childItem opts counter =
     (let anchor = (case transformLink opts of
                      None \<Rightarrow> n_anchor childItem
                    | Some f \<Rightarrow> f (n_anchor childItem));
          text = (if truthy (n_text childItem)
                  then Some (format opts (the (n_text childItem)) anchor) else None);
          li = ''<li>'' @
               (if truthy anchor
                then ''<a href="#'' @ the anchor @ ''">'' @
                     (case text of None \<Rightarrow> ''null'' | Some t \<Rightarrow> t) @ ''</a>''
                else (case text of None \<Rightarrow> [] | Some t \<Rightarrow> t))
      in li @ (if n_children childItem \<noteq> []
               then tocItemToHtml childItem opts (counter + 1) else []) @ ''</li>'')\<close>

section \<open>The inline rule and the renderer rules\<close>

record stateInline =
  src :: string
  pos :: nat
  posMax :: nat
  tokens :: "token list"

text \<open>The host's \<open>state.push(type, tag, nesting)\<close> appends a new token.\<close>

definition push :: "string \<Rightarrow> string \<Rightarrow> int \<Rightarrow> stateInline \<Rightarrow> stateInline" where
  "push ty tg nesting st =
     st\<lparr> tokens := tokens st @
           [\<lparr> tk_type = ty, tk_tag = tg, tk_attrs = None, tk_children = [], tk_content = [],
              tk_markup = [], tk_nesting = nesting \<rparr>] \<rparr>"

text \<open>\<open>s.indexOf(c, p)\<close>, \<open>None\<close> for \<open>-1\<close>.\<close>

definition indexOf :: "char \<Rightarrow> string \<Rightarrow> nat \<Rightarrow> nat option" where
  "indexOf c s p = find (\<lambda>i. s ! i = c) [p ..< length s]"

text \<open>The inline rule \<open>toc\<close>; it returns its boolean and the state.\<close>

definition toc :: "options \<Rightarrow> stateInline \<Rightarrow> bool \<Rightarrow> bool \<times> stateInline" where
  "toc opts st silent =
     (if \<not> (pos st < length (src st) \<and> src st ! pos st = CHR ''['') then (False, st)
      else if silent then (False, st)
      else
        (let match = (case markerPattern opts (drop (pos st) (src st)) of
                        None \<Rightarrow> []
                      | Some m \<Rightarrow> filter truthy m)
         in if length match < 1 then (False, st)
            else
              (let st1 = push ''toc_open'' ''toc'' 1 st;
                   st2 = st1\<lparr> tokens := butlast (tokens st1) @
                                 [(last (tokens st1))\<lparr> tk_markup := ''[[toc]]'' \<rparr>] \<rparr>;
                   st3 = push ''toc_body'' [] 0 st2;
                   st4 = push ''toc_close'' ''toc'' (- 1) st3
               in case indexOf CHR 0x0A (src st4) (pos st4) of
                    Some newline \<Rightarrow> (True, st4\<lparr> pos := newline \<rparr>)
                  | None \<Rightarrow> (True, st4\<lparr> pos := pos st4 + posMax st4 + 1 \<rparr>))))"

definition toc_open :: "options \<Rightarrow> string" where
  \<open>toc_open opts =
     ''<div class="'' @ containerClass opts @ ''">'' @
     (if truthy (containerHeaderHtml opts) then the (containerHeaderHtml opts) else [])\<close>

definition toc_close :: "options \<Rightarrow> string" where
  "toc_close opts =
     (if truthy (containerFooterHtml opts) then the (containerFooterHtml opts) else []) @ ''</div>''"

definition forceFullTocMessage :: string where
  "forceFullTocMessage = ''forceFullToc was removed in version 0.5.0. For more information, see https://github.com/Oktavilla/markdown-it-table-of-contents/pull/41''"

text \<open>\<open>toc_body\<close>; \<open>gtokens\<close> is \<open>gstate.tokens\<close>, the tokens that the core rule
  \<open>grab_state\<close> captured.\<close>

definition toc_body :: "options \<Rightarrow> token list \<Rightarrow> error + string" where
  "toc_body opts gtokens =
     (if forceFullToc opts then Inl (Thrown forceFullTocMessage)
      else
        (let headlineItems = findHeadlineElements (includeLevel opts) gtokens opts in
         case buildTree headlineItems of
           Inl e \<Rightarrow> Inl e
         | Inr tocRoot \<Rightarrow> Inr (tocItemToHtml tocRoot opts 0)))"

section \<open>Traversal of the tree and the invariant of the tree loop\<close>

text \<open>The pre-order traversal of a tree: one visit per node, with the node's depth below
  the node the traversal starts from.\<close>

record visit =
  v_depth :: nat
  v_addr :: nat
  v_level :: jsnum
  v_text :: "string option"
  v_anchor :: "string option"

fun preorder :: "nat \<Rightarrow> tocTree \<Rightarrow> visit list" where
  "preorder d (TocTree a lvl txt anc children) =
     \<lparr> v_depth = d, v_addr = a, v_level = lvl, v_text = txt, v_anchor = anc \<rparr> #
     concat (map (preorder (Suc d)) children)"

text \<open>A visit read back as a headline descriptor.\<close>

fun visitHeadline :: "visit \<Rightarrow> headlineItem option" where
  "visitHeadline v =
     (case v_level v of
        Num l \<Rightarrow> Some \<lparr> h_level = l, h_anchor = v_anchor v, h_text = v_text v \<rparr>
      | Infinity \<Rightarrow> None)"

definition visitDescriptor :: "visit \<Rightarrow> jsnum \<times> string option \<times> string option" where
  "visitDescriptor v = (v_level v, v_anchor v, v_text v)"

definition headlineDescriptor :: "headlineItem \<Rightarrow> jsnum \<times> string option \<times> string option" where
  "headlineDescriptor h = (Num (h_level h), h_anchor h, h_text h)"

text \<open>Comparison of levels. \<open>strictlyIncreasing\<close> says of a tree what the specification's
  invariant says: every child's level is greater than its parent's.\<close>

fun jsLess :: "jsnum \<Rightarrow> jsnum \<Rightarrow> bool" where
  "jsLess (Num a) (Num b) = (a < b)"
| "jsLess (Num a) Infinity = True"
| "jsLess Infinity b = False"

fun strictlyIncreasing :: "tocTree \<Rightarrow> bool" where
  "strictlyIncreasing (TocTree a lvl txt anc children) =
     list_all (\<lambda>c. jsLess lvl (n_level c) \<and> strictlyIncreasing c) children"

text \<open>What the loop establishes instead, for \<open>filled\<close> the root and the nodes filled from a
  descriptor: a filled node at depth \<open>d\<close> has the level of the root plus \<open>d\<close>, every
  other node a greater level (\<open>levelsByDepth\<close>, and \<open>levelByDepth\<close> for one visit); so
  every child of a filled node has a greater level than that node
  (\<open>childLevelsIncrease\<close>).\<close>

fun levelsByDepth :: "nat list \<Rightarrow> int \<Rightarrow> tocTree \<Rightarrow> bool" where
  "levelsByDepth filled l (TocTree a lvl txt anc children) =
     ((if a \<in> set filled then lvl = Num l else jsLess (Num l) lvl \<and> lvl \<noteq> Infinity) \<and>
      list_all (levelsByDepth filled (l + 1)) children)"

definition levelByDepth :: "int \<Rightarrow> nat list \<Rightarrow> visit \<Rightarrow> bool" where
  "levelByDepth L filled v =
     (if v_addr v \<in> set filled then v_level v = Num (L + int (v_depth v))
      else jsLess (Num (L + int (v_depth v))) (v_level v) \<and> v_level v \<noteq> Infinity)"

fun childLevelsIncrease :: "nat list \<Rightarrow> tocTree \<Rightarrow> bool" where
  "childLevelsIncrease filled (TocTree a lvl txt anc children) =
     list_all (\<lambda>c. (a \<in> set filled \<longrightarrow> jsLess lvl (n_level c)) \<and> childLevelsIncrease filled c) children"

text \<open>The levels of the synthetic nodes. \<open>syntheticLevels\<close>: a node that is not filled has
  a first child, of its own level, and only a first child can be a node that is not
  filled. \<open>syntheticNotNext\<close>: no child that is not filled has the level next after its
  parent's.\<close>

fun jsPlus1 :: "jsnum \<Rightarrow> jsnum" where
  "jsPlus1 (Num a) = Num (a + 1)"
| "jsPlus1 Infinity = Infinity"

fun syntheticLevels :: "nat list \<Rightarrow> tocTree \<Rightarrow> bool" where
  "syntheticLevels filled (TocTree a lvl txt anc children) =
     ((a \<notin> set filled \<longrightarrow> children \<noteq> [] \<and> n_level (hd children) = lvl) \<and>
      list_all (\<lambda>c. n_addr c \<in> set filled) (tl children) \<and>
      list_all (syntheticLevels filled) children)"

fun syntheticNotNext :: "nat list \<Rightarrow> tocTree \<Rightarrow> bool" where
  "syntheticNotNext filled (TocTree a lvl txt anc children) =
     list_all (\<lambda>c. (n_addr c \<notin> set filled \<longrightarrow> n_level c \<noteq> jsPlus1 lvl) \<and>
                    syntheticNotNext filled c) children"

text \<open>The loop only ever appends below the rightmost path of the tree. \<open>spine\<close> lists the
  addresses on that path, from the root down; \<open>graft d sub t\<close> appends \<open>sub\<close> to the
  children of the node at depth \<open>d\<close> on it.\<close>

function spine :: "tocTree \<Rightarrow> nat list" where
  "spine (TocTree a lvl txt anc children) =
     a # (if children = [] then [] else spine (last children))"
  by pat_completeness auto
termination
proof (relation "measure size")
  show "wf (measure size)" by simp
next
  fix a lvl tx anc and children :: "tocTree list"
  assume "children \<noteq> []"
  then have "last children \<in> set children" by simp
  then have "size (last children) \<le> size_list size children"
    by (rule size_list_estimation') simp
  then show "(last children, TocTree a lvl tx anc children) \<in> measure size" by simp
qed

fun graft :: "nat \<Rightarrow> tocTree \<Rightarrow> tocTree \<Rightarrow> tocTree" where
  "graft 0 sub (TocTree a lvl txt anc children) = TocTree a lvl txt anc (children @ [sub])"
| "graft (Suc d) sub (TocTree a lvl txt anc children) =
     (if children = [] then TocTree a lvl txt anc children
      else TocTree a lvl txt anc (butlast children @ [graft d sub (last children)]))"

definition leaf :: "nat \<Rightarrow> int \<Rightarrow> string option \<Rightarrow> string option \<Rightarrow> tocTree" where
  "leaf a lvl txt anc = TocTree a (Num lvl) txt anc []"

text \<open>\<open>repr hp p t\<close>: the objects of the heap \<open>hp\<close> reachable from the address of \<open>t\<close> form
  the tree \<open>t\<close>, and the parent of its root is \<open>p\<close>.\<close>

fun repr :: "heap \<Rightarrow> nat option \<Rightarrow> tocTree \<Rightarrow> bool" where
  "repr hp p (TocTree a lvl txt anc children) =
     (a < length hp \<and> t_level (hp ! a) = lvl \<and> t_text (hp ! a) = txt \<and> t_anchor (hp ! a) = anc \<and>
      t_parent (hp ! a) = p \<and> t_children (hp ! a) = map n_addr children \<and>
      list_all (repr hp (Some a)) children)"

text \<open>The invariant of the loop. \<open>shape\<close>: the heap holds a tree whose nodes are all the
  objects, numbered in pre-order; \<open>prevListItem\<close> is the last node of the rightmost path
  and \<open>currentRootNode\<close> its parent. \<open>treeInv\<close>: moreover the level of \<open>prevListItem\<close> is
  the root's level plus its depth.\<close>

definition shape :: "builder \<Rightarrow> tocTree \<Rightarrow> bool" where
  "shape b t =
     (repr (heap b) None t \<and> map v_addr (preorder 0 t) = [0..<length (heap b)] \<and>
      prevListItem b = last (spine t) \<and>
      (2 \<le> length (spine t) \<longrightarrow> currentRootNode b = spine t ! (length (spine t) - 2)))"

definition treeInv :: "int \<Rightarrow> builder \<Rightarrow> tocTree \<Rightarrow> bool" where
  "treeInv L b t =
     (shape b t \<and> t_level (heap b ! prevListItem b) = Num (L + int (length (spine t)) - 1))"

text \<open>The same inside a round, while the inner \<open>forEach\<close> runs: with \<open>opn = Some lvl\<close> the
  last node of the rightmost path may be a node that is not filled and has no child yet,
  if its level is \<open>lvl\<close>; with \<open>opn = None\<close> it must be filled.\<close>

function synthG :: "nat set \<Rightarrow> jsnum option \<Rightarrow> tocTree \<Rightarrow> bool" where
  "synthG F opn (TocTree a lvl txt anc children) =
     (if children = [] then (a \<in> F \<or> opn = Some lvl)
      else (a \<notin> F \<longrightarrow> n_level (hd children) = lvl) \<and>
           (\<forall>c\<in>set (tl children). n_addr c \<in> F) \<and>
           (\<forall>c\<in>set (butlast children). synthG F None c) \<and>
           synthG F opn (last children))"
  by pat_completeness auto
termination
proof (relation "measure (\<lambda>(F, opn, t). size t)")
  show "wf (measure (\<lambda>(F, opn, t). size t))" by simp
next
  fix F :: "nat set" and opn :: "jsnum option" and a lvl tx anc and children :: "tocTree list" and c
  assume "c \<in> set (butlast children)"
  then have "c \<in> set children" by (rule in_set_butlastD)
  then have "size c \<le> size_list size children"
    by (rule size_list_estimation') simp
  then show "((F, None, c), (F, opn, TocTree a lvl tx anc children)) \<in> measure (\<lambda>(F, opn, t). size t)"
    by simp
next
  fix F :: "nat set" and opn :: "jsnum option" and a lvl tx anc and children :: "tocTree list"
  assume "children \<noteq> []"
  then have "last children \<in> set children" by simp
  then have "size (last children) \<le> size_list size children"
    by (rule size_list_estimation') simp
  then show "((F, opn, last children), (F, opn, TocTree a lvl tx anc children)) \<in> measure (\<lambda>(F, opn, t). size t)"
    by simp
qed

text \<open>One round of the inner \<open>forEach\<close>, and the visits of the synthetic nodes that \<open>j\<close>
  rounds add.\<close>

definition addStep :: "int \<Rightarrow> builder \<Rightarrow> builder" where
  "addStep lvl b =
     (let cur = prevListItem b;
          (item, hp) = addListItem lvl None None cur (heap b)
      in \<lparr> heap = hp, currentRootNode = cur, prevListItem = item \<rparr>)"

definition synthVisits :: "nat \<Rightarrow> nat \<Rightarrow> int \<Rightarrow> nat \<Rightarrow> visit list" where
  "synthVisits k n lvl j =
     map (\<lambda>i. \<lparr> v_depth = k + i, v_addr = n + i, v_level = Num lvl, v_text = None, v_anchor = None \<rparr>)
       [0..<j]"

text \<open>What one round, and what the rest of the outer loop, adds to the traversal.\<close>

definition filledVisit :: "int \<Rightarrow> nat \<Rightarrow> headlineItem \<Rightarrow> visit" where
  "filledVisit L a h =
     \<lparr> v_depth = nat (h_level h - L), v_addr = a, v_level = Num (h_level h),
       v_text = h_text h, v_anchor = h_anchor h \<rparr>"

definition stepResult :: "int \<Rightarrow> builder \<Rightarrow> tocTree \<Rightarrow> headlineItem \<Rightarrow> builder \<Rightarrow> tocTree \<Rightarrow> visit list \<Rightarrow> bool" where
  "stepResult L b t h b' t' syn =
     (treeInv L b' t' \<and>
      preorder 0 t' = preorder 0 t @ syn @ [filledVisit L (prevListItem b') h] \<and>
      map v_addr syn = [length (heap b)..<length (heap b) + length syn] \<and>
      prevListItem b' = length (heap b) + length syn \<and>
      length (heap b') = length (heap b) + length syn + 1 \<and>
      (\<forall>v\<in>set syn. v_level v = Num (h_level h) \<and> L + int (v_depth v) < h_level h) \<and>
      (\<forall>F. synthG F None t \<longrightarrow> synthG (insert (prevListItem b') F) None t'))"

definition loopResult ::
  "int \<Rightarrow> builder \<Rightarrow> tocTree \<Rightarrow> headlineItem list \<Rightarrow> builder \<Rightarrow> tocTree \<Rightarrow> visit list \<Rightarrow> bool" where
  "loopResult L b t hs b' t' new =
     (treeInv L b' t' \<and>
      preorder 0 t' = preorder 0 t @ new \<and>
      map v_addr new = [length (heap b)..<length (heap b')] \<and>
      length (heap b) \<le> length (heap b') \<and>
      set (filledNodes b hs) \<subseteq> {length (heap b)..<length (heap b')} \<and>
      map visitDescriptor (filter (\<lambda>v. v_addr v \<in> set (filledNodes b hs)) new) =
        map headlineDescriptor hs \<and>
      list_all (levelByDepth L (filledNodes b hs)) new \<and>
      map (\<lambda>v. (v_addr v, v_level v)) new = map (\<lambda>(a, l). (a, Num l)) (createdNodes b hs) \<and>
      (\<forall>F. synthG F None t \<longrightarrow> synthG (F \<union> set (filledNodes b hs)) None t'))"

section \<open>The removed option \<open>forceFullToc\<close>\<close>

text \<open>
  Claim C7. Whenever the removed option \<open>forceFullToc\<close> is truthy, rendering the body
  placeholder throws the message that names the option as removed, whatever the other
  options and the captured tokens are; nothing is rendered.
\<close>

theorem toc_body_forceFullToc_fails:
  "forceFullToc opts \<Longrightarrow> toc_body opts gtokens = Inl (Thrown forceFullTocMessage)"
  by (simp add: toc_body_def)

theorem toc_body_forceFullToc_fails_witness:
  "forceFullToc ((defaults (\<lambda>s. s))\<lparr> forceFullToc := True \<rparr>) \<and>
   toc_body ((defaults (\<lambda>s. s))\<lparr> forceFullToc := True \<rparr>) [] = Inl (Thrown forceFullTocMessage)"
  using toc_body_forceFullToc_fails [of "(defaults (\<lambda>s. s))\<lparr> forceFullToc := True \<rparr>" "[]"]
  by simp

section \<open>No headline for the configured levels\<close>

lemma buildTree_Nil: "buildTree [] = Inr (TocTree 0 Infinity None None [])"
  by (simp add: buildTree_def flatHeadlineItemsToNestedTree_def initialBuilder_def getMinLevel_def)

text \<open>
  Claim C6. When the extractor finds no headline for the included levels (an empty token
  stream is one such case), rendering the body placeholder does not fail: it returns the
  list element with no item, which the rules \<open>toc_open\<close> and \<open>toc_close\<close> wrap in the
  container.
\<close>

theorem toc_body_no_headlines:
  assumes "\<not> forceFullToc opts"
    and "findHeadlineElements (includeLevel opts) gtokens opts = []"
  shows \<open>toc_body opts gtokens =
           Inr (''<'' @ listType opts @
                (if listAttrs opts \<noteq> [] then '' '' @ listAttrs opts else []) @ ''>'' @
                ''</'' @ listType opts @ ''>'') \<and>
         toc_open opts @
           ''<'' @ listType opts @
           (if listAttrs opts \<noteq> [] then '' '' @ listAttrs opts else []) @ ''>'' @
           ''</'' @ listType opts @ ''>'' @
         toc_close opts =
           ''<div class="'' @ containerClass opts @ ''">'' @
           (if truthy (containerHeaderHtml opts) then the (containerHeaderHtml opts) else []) @
           ''<'' @ listType opts @
           (if listAttrs opts \<noteq> [] then '' '' @ listAttrs opts else []) @ ''>'' @
           ''</'' @ listType opts @ ''>'' @
           (if truthy (containerFooterHtml opts) then the (containerFooterHtml opts) else []) @
           ''</div>''\<close>
  using assms by (simp add: toc_body_def buildTree_Nil toc_open_def toc_close_def)

theorem toc_body_no_headlines_witness:
  \<open>toc_body (defaults (\<lambda>s. s)) [] = Inr ''<ul></ul>'' \<and>
   toc_body (defaults (\<lambda>s. s))
     [\<lparr> tk_type = ''heading_open'', tk_tag = ''h3'', tk_attrs = None, tk_children = [],
         tk_content = [], tk_markup = ''###'', tk_nesting = 1 \<rparr>,
      \<lparr> tk_type = ''inline'', tk_tag = [], tk_attrs = None,
         tk_children = [\<lparr> c_type = ''text'', c_content = ''Deep'' \<rparr>],
         tk_content = ''Deep'', tk_markup = [], tk_nesting = 0 \<rparr>,
      \<lparr> tk_type = ''heading_close'', tk_tag = ''h3'', tk_attrs = None, tk_children = [],
         tk_content = [], tk_markup = ''###'', tk_nesting = - 1 \<rparr>] = Inr ''<ul></ul>'' \<and>
   toc_open (defaults (\<lambda>s. s)) @ ''<ul></ul>'' @ toc_close (defaults (\<lambda>s. s)) =
     ''<div class="table-of-contents"><ul></ul></div>''\<close>
proof -
  let ?d = "defaults (\<lambda>s. s)"
  let ?h3 = "[\<lparr> tk_type = ''heading_open'', tk_tag = ''h3'', tk_attrs = None, tk_children = [],
         tk_content = [], tk_markup = ''###'', tk_nesting = 1 \<rparr>,
      \<lparr> tk_type = ''inline'', tk_tag = [], tk_attrs = None,
         tk_children = [\<lparr> c_type = ''text'', c_content = ''Deep'' \<rparr>],
         tk_content = ''Deep'', tk_markup = [], tk_nesting = 0 \<rparr>,
      \<lparr> tk_type = ''heading_close'', tk_tag = ''h3'', tk_attrs = None, tk_children = [],
         tk_content = [], tk_markup = ''###'', tk_nesting = - 1 \<rparr>]"
  have f: "\<not> forceFullToc ?d" by (simp add: defaults_def)
  have e: "findHeadlineElements (includeLevel ?d) [] ?d = []"
    by (simp add: findHeadlineElements_def)
  have h: "findHeadlineElements (includeLevel ?d) ?h3 ?d = []"
    by (simp add: defaults_def findHeadlineElements_def headlineStep_def tagLevel_def parseInt_def
        toLowerCase_def lowerChar_def isWhiteSpace_def parseDigits_def isDigit_def digitsValue_def
        findExistingIdAttr_def)
  have c: \<open>toc_open ?d @ ''<ul></ul>'' @ toc_close ?d = ''<div class="table-of-contents"><ul></ul></div>''\<close>
    by (simp add: toc_open_def toc_close_def defaults_def)
  have l: "listType ?d = ''ul''" "listAttrs ?d = []" by (simp_all add: defaults_def)
  from toc_body_no_headlines[OF f e] have "toc_body ?d [] = Inr ''<ul></ul>''"
    using l by simp
  moreover from toc_body_no_headlines[OF f h] have "toc_body ?d ?h3 = Inr ''<ul></ul>''"
    using l by simp
  ultimately show ?thesis using c by simp
qed

section \<open>The inline rule\<close>

lemma indexOf_Some:
  assumes "indexOf c s p = Some n"
  shows "p \<le> n \<and> n < length s \<and> s ! n = c \<and> (\<forall>i. p \<le> i \<and> i < n \<longrightarrow> s ! i \<noteq> c)"
proof -
  from assms obtain i where i: "i < length [p..<length s]" "s ! ([p..<length s] ! i) = c"
    "n = [p..<length s] ! i" "\<forall>j<i. s ! ([p..<length s] ! j) \<noteq> c"
    unfolding indexOf_def find_Some_iff by blast
  have n: "n = p + i" and il: "i < length s - p" using i by simp_all
  have "s ! k \<noteq> c" if "p \<le> k" "k < n" for k
  proof -
    have "k - p < i" using that n by arith
    with i(4) have "s ! ([p..<length s] ! (k - p)) \<noteq> c" by blast
    moreover have "[p..<length s] ! (k - p) = k" using that n il by simp
    ultimately show ?thesis by simp
  qed
  then show ?thesis using i n il by auto
qed

lemma indexOf_None:
  "indexOf c s p = None \<Longrightarrow> (\<forall>i. p \<le> i \<and> i < length s \<longrightarrow> s ! i \<noteq> c)"
  unfolding indexOf_def
  by (auto simp: find_None_iff)

lemma toc_matched:
  assumes "pos st < length (src st)" and "src st ! pos st = CHR ''[''" and "\<not> silent"
    and "markerPattern opts (drop (pos st) (src st)) = Some m" and "filter truthy m \<noteq> []"
  shows "toc opts st silent =
    (True, st\<lparr> tokens := tokens st @
       [\<lparr> tk_type = ''toc_open'', tk_tag = ''toc'', tk_attrs = None, tk_children = [], tk_content = [],
              tk_markup = ''[[toc]]'', tk_nesting = 1 \<rparr>,
        \<lparr> tk_type = ''toc_body'', tk_tag = [], tk_attrs = None, tk_children = [], tk_content = [],
              tk_markup = [], tk_nesting = 0 \<rparr>,
        \<lparr> tk_type = ''toc_close'', tk_tag = ''toc'', tk_attrs = None, tk_children = [], tk_content = [],
              tk_markup = [], tk_nesting = - 1 \<rparr>],
       pos := (case indexOf CHR 0x0A (src st) (pos st) of Some newline \<Rightarrow> newline
               | None \<Rightarrow> pos st + posMax st + 1) \<rparr>)"
proof -
  have m: "\<not> length (filter truthy m) < 1" using assms(5) by (cases "filter truthy m") auto
  show ?thesis
    unfolding toc_def using assms(1-4) m
    by (simp add: Let_def push_def split: option.split)
qed

text \<open>
  Claim C5, as the code has it. When the rule matches (the character at the position is
  an opening bracket, the call is not silent, and the marker pattern's match array has a
  truthy entry), it returns \<open>true\<close> and moves the position: to the index of the first
  line feed at or after the position, when there is one; when there is none, to
  \<open>pos + posMax + 1\<close>, which lies beyond the end of the content.
\<close>

theorem toc_match_advances:
  assumes "pos st < length (src st)" and "src st ! pos st = CHR ''[''" and "\<not> silent"
    and "markerPattern opts (drop (pos st) (src st)) = Some m" and "filter truthy m \<noteq> []"
  shows "fst (toc opts st silent) \<and>
         src (snd (toc opts st silent)) = src st \<and>
         (\<forall>n. pos st \<le> n \<and> n < length (src st) \<and> src st ! n = CHR 0x0A \<and>
              (\<forall>i. pos st \<le> i \<and> i < n \<longrightarrow> src st ! i \<noteq> CHR 0x0A)
              \<longrightarrow> pos (snd (toc opts st silent)) = n) \<and>
         ((\<forall>i. pos st \<le> i \<and> i < length (src st) \<longrightarrow> src st ! i \<noteq> CHR 0x0A)
              \<longrightarrow> pos (snd (toc opts st silent)) = pos st + posMax st + 1)"
proof (cases "indexOf CHR 0x0A (src st) (pos st)")
  case None
  note no = indexOf_None[OF None]
  have p: "pos (snd (toc opts st silent)) = pos st + posMax st + 1"
    by (simp add: toc_matched[OF assms] None)
  have "\<not> (pos st \<le> n \<and> n < length (src st) \<and> src st ! n = CHR 0x0A)" for n
    using no by blast
  then show ?thesis using p by (auto simp: toc_matched[OF assms])
next
  case (Some nl)
  note f = indexOf_Some[OF Some]
  have p: "pos (snd (toc opts st silent)) = nl"
    by (simp add: toc_matched[OF assms] Some)
  have u: "nl = n" if "pos st \<le> n \<and> n < length (src st) \<and> src st ! n = CHR 0x0A \<and>
              (\<forall>i. pos st \<le> i \<and> i < n \<longrightarrow> src st ! i \<noteq> CHR 0x0A)" for n
  proof (rule ccontr)
    assume "nl \<noteq> n"
    then consider "nl < n" | "n < nl" by arith
    then show False
    proof cases
      case 1
      then show False using that f by blast
    next
      case 2
      then show False using that f by blast
    qed
  qed
  have e: "\<not> (\<forall>i. pos st \<le> i \<and> i < length (src st) \<longrightarrow> src st ! i \<noteq> CHR 0x0A)"
    using f by blast
  have a: "fst (toc opts st silent)" and b: "src (snd (toc opts st silent)) = src st"
    by (simp_all add: toc_matched[OF assms])
  show ?thesis
    using a b p u e by blast
qed

theorem toc_match_advances_witness:
  "fst (toc (defaults (\<lambda>s. s)) \<lparr>src = ''[[toc]]'' @ [CHR 0x0A] @ ''x'', pos = 0, posMax = 9, tokens = []\<rparr> False) \<and>
   pos (snd (toc (defaults (\<lambda>s. s)) \<lparr>src = ''[[toc]]'' @ [CHR 0x0A] @ ''x'', pos = 0, posMax = 9, tokens = []\<rparr> False)) = 7"
proof -
  let ?st = "\<lparr>src = ''[[toc]]'' @ [CHR 0x0A] @ ''x'', pos = 0, posMax = 9, tokens = []\<rparr>"
  have 1: "pos ?st < length (src ?st)" by simp
  have 2: "src ?st ! pos ?st = CHR ''[''" by simp
  have 3: "\<not> False" by simp
  have 4: "markerPattern (defaults (\<lambda>s. s)) (drop (pos ?st) (src ?st)) = Some [Some ''[[toc]]'']"
    by (simp add: defaults_def defaultMarkerPattern_def matchesTocAt_def toLowerCase_def lowerChar_def)
  have 5: "filter truthy [Some ''[[toc]]''] \<noteq> []" by simp
  have 6: "pos ?st \<le> 7 \<and> 7 < length (src ?st) \<and> src ?st ! 7 = CHR 0x0A \<and>
              (\<forall>i. pos ?st \<le> i \<and> i < 7 \<longrightarrow> src ?st ! i \<noteq> CHR 0x0A)"
    by (auto simp: nth_Cons')
  from toc_match_advances[OF 1 2 3 4 5] have
    a: "fst (toc (defaults (\<lambda>s. s)) ?st False)" and
    b: "\<forall>n. pos ?st \<le> n \<and> n < length (src ?st) \<and> src ?st ! n = CHR 0x0A \<and>
              (\<forall>i. pos ?st \<le> i \<and> i < n \<longrightarrow> src ?st ! i \<noteq> CHR 0x0A)
              \<longrightarrow> pos (snd (toc (defaults (\<lambda>s. s)) ?st False)) = n"
    by blast+
  from b 6 have "pos (snd (toc (defaults (\<lambda>s. s)) ?st False)) = 7" by blast
  with a show ?thesis by blast
qed

text \<open>
  The claim as stated fails where no line feed follows: on the content \<open>[[toc]]\<close> of
  length 7, scanned from position 0, the new position is 8, not the end of the content.
\<close>

theorem toc_end_of_content_counterexample:
  "fst (toc (defaults (\<lambda>s. s)) \<lparr>src = ''[[toc]]'', pos = 0, posMax = 7, tokens = []\<rparr> False) \<and>
   length (src \<lparr>src = ''[[toc]]'', pos = 0, posMax = 7, tokens = ([]::token list)\<rparr>) = 7 \<and>
   pos (snd (toc (defaults (\<lambda>s. s)) \<lparr>src = ''[[toc]]'', pos = 0, posMax = 7, tokens = []\<rparr> False)) = 8"
  by (simp add: toc_def defaults_def defaultMarkerPattern_def matchesTocAt_def toLowerCase_def
      lowerChar_def push_def indexOf_def Let_def)

text \<open>
  Claim C9. With the default marker pattern there is an input on which the rule reports a
  match and pushes the triple \<open>toc_open\<close>, \<open>toc_body\<close>, \<open>toc_close\<close> at the current
  position although the marker does not start there: the position holds an opening
  bracket, the marker starts on the next line, and the multiline pattern is run against
  the whole rest of the content.
\<close>

theorem toc_matches_marker_on_later_line:
  "\<exists>st. src st ! pos st = CHR ''['' \<and>
        \<not> matchesTocAt (drop (pos st) (src st)) \<and>
        src st ! 3 = CHR 0x0A \<and> pos st < 3 \<and> matchesTocAt (drop 4 (src st)) \<and>
        markerPattern (defaults r) (drop (pos st) (src st)) = Some [Some ''[[toc]]''] \<and>
        fst (toc (defaults r) st False) \<and>
        map tk_type (tokens (snd (toc (defaults r) st False))) =
          map tk_type (tokens st) @ [''toc_open'', ''toc_body'', ''toc_close''] \<and>
        pos (snd (toc (defaults r) st False)) = 3"
proof -
  let ?st = "\<lparr>src = ''[x]'' @ [CHR 0x0A] @ ''[[toc]]'', pos = 0, posMax = 11, tokens = []\<rparr>"
  have 1: "pos ?st < length (src ?st)" by simp
  have 2: "src ?st ! pos ?st = CHR ''[''" by simp
  have 3: "\<not> False" by simp
  have 4: "markerPattern (defaults r) (drop (pos ?st) (src ?st)) = Some [Some ''[[toc]]'']"
    by (simp add: defaults_def defaultMarkerPattern_def matchesTocAt_def toLowerCase_def lowerChar_def
        isLineTerminator_def)
  have 5: "filter truthy [Some ''[[toc]]''] \<noteq> []" by simp
  have 6: "indexOf CHR 0x0A (src ?st) (pos ?st) = Some 3"
    by (simp add: indexOf_def upt_conv_Cons)
  have 7: "\<not> matchesTocAt (drop (pos ?st) (src ?st))" "matchesTocAt (drop 4 (src ?st))"
    by (simp_all add: matchesTocAt_def toLowerCase_def lowerChar_def)
  have 8: "fst (toc (defaults r) ?st False)"
    "map tk_type (tokens (snd (toc (defaults r) ?st False))) =
       map tk_type (tokens ?st) @ [''toc_open'', ''toc_body'', ''toc_close'']"
    "pos (snd (toc (defaults r) ?st False)) = 3"
    using 6 toc_matched[OF 1 2 3 4 5] by simp_all
  have 9: "src ?st ! 3 = CHR 0x0A" "pos ?st < 3" by simp_all
  show ?thesis
    using 2 4 7 8 9 by blast
qed

section \<open>The default slug function\<close>

lemma of_char_lt_256: "(of_char c :: nat) < 256"
proof -
  have "(of_char c :: nat) mod 256 = of_char c" by (rule of_char_mod_256)
  moreover have "(of_char c :: nat) mod 256 < 256" by simp
  ultimately show ?thesis by simp
qed

lemmas unit_defs = isUnitWhiteSpace_def isHighSurrogate_def isLowSurrogate_def unitUnreserved_def
  utf8_def hexUnit_def percentUnits_def escapeUnits_def pairCodePoint_def unitOf_def unitsOf_def
  lowerLatin1Unit_def lowerLatin1_def trimUnits_def slugifyUnits_def

lemma ex1: "slugifyUnits lowerLatin1 (unitsOf ''  Hello   World! '') = Inr (unitsOf ''hello-world!'')"
  by (simp add: unit_defs)
lemma ex2: "slugifyUnits lowerLatin1 [0xD800] = Inl URIError"
  by (simp add: unit_defs)
lemma ex3: "slugifyUnits lowerLatin1 [0xD83D, 0xDE00, 0x20AC, 0x2003, 0x41] = Inr (unitsOf ''%F0%9F%98%80%E2%82%AC-a'')"
  by (simp add: unit_defs)


lemma unat_hexUnit: "k < 16 \<Longrightarrow> unat (hexUnit k) = (if k < 10 then 48 + k else 55 + k)"
  by (simp add: hexUnit_def unat_of_nat)

lemma isHexUnit_hexUnit: "k < 16 \<Longrightarrow> isHexUnit (hexUnit k)"
  by (auto simp: isHexUnit_def unat_hexUnit)

lemma hexValue_hexUnit: "k < 16 \<Longrightarrow> hexValue (hexUnit k) = k"
  by (auto simp: hexValue_def unat_hexUnit)

lemma percentEncoded_percentUnits:
  "percentEncoded rest \<Longrightarrow> percentEncoded (percentUnits b @ rest)"
  by (simp add: percentUnits_def isHexUnit_hexUnit)

lemma percentDecode_percentUnits:
  "b < 256 \<Longrightarrow> percentDecode (percentUnits b @ rest) = b # percentDecode rest"
proof -
  assume b: "b < 256"
  then have "b div 16 < 16" by simp
  then have "b div 16 mod 16 = b div 16" by simp
  then show ?thesis by (simp add: percentUnits_def hexValue_hexUnit)
qed

lemma percentEncoded_bytes:
  "percentEncoded rest \<Longrightarrow> percentEncoded (concat (map percentUnits bs) @ rest)"
  by (induction bs) (simp_all add: percentEncoded_percentUnits)

lemma percentDecode_bytes:
  "list_all (\<lambda>b. b < 256) bs \<Longrightarrow>
   percentDecode (concat (map percentUnits bs) @ rest) = bs @ percentDecode rest"
  by (induction bs) (simp_all add: percentDecode_percentUnits)

lemma utf8_bytes: "v < 1114112 \<Longrightarrow> list_all (\<lambda>b. b < 256) (utf8 v)"
  by (auto simp: utf8_def)

lemma pairCodePoint_bound:
  "isHighSurrogate c \<Longrightarrow> isLowSurrogate k \<Longrightarrow> pairCodePoint c k < 1114112"
  by (auto simp: isHighSurrogate_def isLowSurrogate_def pairCodePoint_def)

lemma unat_unit_bound: "unat (c :: codeUnit) < 1114112"
proof -
  have "unat c < 2 ^ LENGTH(16)" by (rule unsigned_less)
  then show ?thesis by simp
qed


lemma unreserved_facts:
  assumes "unitUnreserved c"
  shows "c \<noteq> 37" and "\<not> isHighSurrogate c" and "\<not> isLowSurrogate c" and "utf8 (unat c) = [unat c]"
  using assms
  by (auto simp: unitUnreserved_def isHighSurrogate_def isLowSurrogate_def utf8_def Let_def)

lemma encode_Inr:
  "encodeURIComponentUnits x = Inr out \<Longrightarrow>
   percentEncoded out \<and> percentDecode out = concat (map utf8 (codePoints x))"
proof (induction x arbitrary: out rule: encodeURIComponentUnits.induct)
  case 1
  then show ?case by simp
next
  case (2 c cs)
  show ?case
  proof (cases "unitUnreserved c")
    case True
    with "2.prems" obtain r where r: "encodeURIComponentUnits cs = Inr r" and out: "out = c # r"
      by (cases "encodeURIComponentUnits cs") auto
    from "2.IH"(1)[OF True r] show ?thesis
      using True unreserved_facts[OF True] out by simp
  next
    case False
    note nu = False
    show ?thesis
    proof (cases "isLowSurrogate c")
      case True
      with nu "2.prems" show ?thesis by simp
    next
      case False
      note nl = False
      show ?thesis
      proof (cases "isHighSurrogate c")
        case False
        with nu nl "2.prems" obtain r where r: "encodeURIComponentUnits cs = Inr r"
          and out: "out = escapeUnits (unat c) @ r"
          by (cases "encodeURIComponentUnits cs") auto
        note IH = "2.IH"(2)[OF nu nl False r]
        have b: "list_all (\<lambda>b. b < 256) (utf8 (unat c))" by (rule utf8_bytes[OF unat_unit_bound])
        show ?thesis
          using IH False out percentEncoded_bytes[of r "utf8 (unat c)"]
            percentDecode_bytes[OF b, of r]
          by (simp add: escapeUnits_def)
      next
        case True
        with nu nl "2.prems" obtain k ks where cs: "cs = k # ks" by (cases cs) auto
        with nu nl True "2.prems" have lk: "isLowSurrogate k" by (auto split: if_splits)
        with nu nl True "2.prems" cs obtain r where r: "encodeURIComponentUnits ks = Inr r"
          and out: "out = escapeUnits (pairCodePoint c k) @ r"
          by (cases "encodeURIComponentUnits ks") auto
        have nlk: "\<not> \<not> isLowSurrogate k" using lk by simp
        note IH = "2.IH"(3)[OF nu nl _ cs nlk r]
        have b: "list_all (\<lambda>b. b < 256) (utf8 (pairCodePoint c k))"
          by (rule utf8_bytes[OF pairCodePoint_bound[OF True lk]])
        show ?thesis
          using IH True cs lk out percentEncoded_bytes[of r "utf8 (pairCodePoint c k)"]
            percentDecode_bytes[OF b, of r]
          by (simp add: escapeUnits_def)
      qed
    qed
  qed
qed


lemma surrogate_disjoint: "isHighSurrogate c \<Longrightarrow> \<not> isLowSurrogate c"
  by (simp add: isHighSurrogate_def isLowSurrogate_def)

lemma encode_wellFormed:
  "wellFormedUnits x \<Longrightarrow> \<exists>out. encodeURIComponentUnits x = Inr out"
proof (induction x rule: encodeURIComponentUnits.induct)
  case 1
  then show ?case by simp
next
  case (2 c cs)
  show ?case
  proof (cases "unitUnreserved c")
    case True
    have "wellFormedUnits cs" using "2.prems" unreserved_facts[OF True] by simp
    from "2.IH"(1)[OF True this] show ?thesis using True by auto
  next
    case False
    note nu = False
    have nl: "\<not> isLowSurrogate c"
      using "2.prems" surrogate_disjoint[of c] by (auto split: if_splits)
    show ?thesis
    proof (cases "isHighSurrogate c")
      case False
      have "wellFormedUnits cs" using "2.prems" False by simp
      from "2.IH"(2)[OF nu nl False this] show ?thesis using nu nl False by auto
    next
      case True
      with "2.prems" obtain k ks where cs: "cs = k # ks" and lk: "isLowSurrogate k"
        and wf: "wellFormedUnits ks" by (cases cs) auto
      have nlk: "\<not> \<not> isLowSurrogate k" using lk by simp
      from "2.IH"(3)[OF nu nl _ cs nlk wf] show ?thesis using nu nl True cs lk by auto
    qed
  qed
qed

lemma encode_illFormed:
  "\<not> wellFormedUnits x \<Longrightarrow> encodeURIComponentUnits x = Inl URIError"
proof (induction x rule: encodeURIComponentUnits.induct)
  case 1
  then show ?case by simp
next
  case (2 c cs)
  show ?case
  proof (cases "unitUnreserved c")
    case True
    have "\<not> wellFormedUnits cs" using "2.prems" unreserved_facts[OF True] by simp
    from "2.IH"(1)[OF True this] show ?thesis using True by simp
  next
    case False
    note nu = False
    show ?thesis
    proof (cases "isLowSurrogate c")
      case True
      then show ?thesis using nu by simp
    next
      case False
      note nl = False
      show ?thesis
      proof (cases "isHighSurrogate c")
        case False
        have "\<not> wellFormedUnits cs" using "2.prems" False nl by simp
        from "2.IH"(2)[OF nu nl False this] show ?thesis using nu nl False by simp
      next
        case True
        show ?thesis
        proof (cases cs)
          case Nil
          then show ?thesis using nu nl True by simp
        next
          case (Cons k ks)
          show ?thesis
          proof (cases "isLowSurrogate k")
            case False
            then show ?thesis using nu nl True Cons by simp
          next
            case lk: True
            have nlk: "\<not> \<not> isLowSurrogate k" using lk by simp
            have "\<not> wellFormedUnits ks" using "2.prems" True Cons lk by simp
            from "2.IH"(3)[OF nu nl _ Cons nlk this] show ?thesis using nu nl True Cons lk by simp
          qed
        qed
      qed
    qed
  qed
qed

lemma unreserved_not_ws: "unitUnreserved u \<Longrightarrow> \<not> isUnitWhiteSpace u"
  by (auto simp: unitUnreserved_def isUnitWhiteSpace_def Let_def)

lemma isHexUnit_unreserved: "isHexUnit u \<Longrightarrow> unitUnreserved u"
  by (auto simp: unitUnreserved_def isHexUnit_def Let_def)

lemma percentEncoded_not_ws:
  "percentEncoded out \<Longrightarrow> list_all (\<lambda>u. \<not> isUnitWhiteSpace u) out"
proof (induction out rule: percentEncoded.induct)
  case 1
  then show ?case by simp
next
  case (2 c cs)
  show ?case
  proof (cases "c = 37")
    case True
    with "2.prems" obtain h1 h2 rest where cs: "cs = h1 # h2 # rest"
      and h: "isHexUnit h1" "isHexUnit h2" and r: "percentEncoded rest"
      by (auto split: list.splits)
    have "\<not> isUnitWhiteSpace c" using True by (simp add: isUnitWhiteSpace_def)
    moreover have "\<not> isUnitWhiteSpace h1" "\<not> isUnitWhiteSpace h2"
      using h by (auto dest!: isHexUnit_unreserved unreserved_not_ws)
    ultimately show ?thesis using "2.IH"(1)[OF True cs _ r] h cs by simp
  next
    case False
    then show ?thesis using "2.prems" "2.IH"(2)[OF False] by (simp add: unreserved_not_ws)
  qed
qed

lemma replaceUnitRuns_not_ws: "list_all (\<lambda>u. \<not> isUnitWhiteSpace u) (replaceUnitRuns x)"
  by (induction x rule: replaceUnitRuns.induct) (simp_all add: isUnitWhiteSpace_def)


lemma trimUnits_rest:
  "dropWhile isUnitWhiteSpace s =
     trimUnits s @ rev (takeWhile isUnitWhiteSpace (rev (dropWhile isUnitWhiteSpace s)))"
proof -
  let ?d = "dropWhile isUnitWhiteSpace s"
  have "rev (takeWhile isUnitWhiteSpace (rev ?d) @ dropWhile isUnitWhiteSpace (rev ?d)) = ?d"
    by (simp only: takeWhile_dropWhile_id rev_rev_ident)
  then have "rev (dropWhile isUnitWhiteSpace (rev ?d)) @ rev (takeWhile isUnitWhiteSpace (rev ?d)) = ?d"
    by (simp only: rev_append)
  then show ?thesis unfolding trimUnits_def by (rule sym)
qed

lemma trimUnits_parts:
  "s = takeWhile isUnitWhiteSpace s @ trimUnits s @
       rev (takeWhile isUnitWhiteSpace (rev (dropWhile isUnitWhiteSpace s)))"
proof -
  have "s = takeWhile isUnitWhiteSpace s @ dropWhile isUnitWhiteSpace s"
    by (simp only: takeWhile_dropWhile_id)
  also have "dropWhile isUnitWhiteSpace s =
     trimUnits s @ rev (takeWhile isUnitWhiteSpace (rev (dropWhile isUnitWhiteSpace s)))"
    by (rule trimUnits_rest)
  finally show ?thesis .
qed

lemma trimUnits_ends:
  assumes "trimUnits s \<noteq> []"
  shows "\<not> isUnitWhiteSpace (hd (trimUnits s))" and "\<not> isUnitWhiteSpace (last (trimUnits s))"
proof -
  let ?d = "dropWhile isUnitWhiteSpace s"
  let ?r = "dropWhile isUnitWhiteSpace (rev ?d)"
  have r: "?r \<noteq> []" using assms by (simp add: trimUnits_def)
  have "last (trimUnits s) = hd ?r" using r by (simp add: trimUnits_def last_rev)
  then show "\<not> isUnitWhiteSpace (last (trimUnits s))" using hd_dropWhile[OF r] by simp
  have d: "?d \<noteq> []"
  proof
    assume e: "?d = []"
    have "?r = []" unfolding e by simp
    with r show False by simp
  qed
  have "hd ?d = hd (trimUnits s @ rev (takeWhile isUnitWhiteSpace (rev ?d)))"
    using trimUnits_rest[of s] by (rule arg_cong)
  also have "\<dots> = hd (trimUnits s)" by (rule hd_append2[OF assms])
  finally have "hd ?d = hd (trimUnits s)" .
  then show "\<not> isUnitWhiteSpace (hd (trimUnits s))" using hd_dropWhile[OF d] by simp
qed

lemma replaceUnitRuns_id:
  "list_all (\<lambda>u. \<not> isUnitWhiteSpace u) x \<Longrightarrow> replaceUnitRuns x = x"
  by (induction x) simp_all

lemma replaceUnitRuns_append:
  "a = [] \<or> \<not> isUnitWhiteSpace (last a) \<Longrightarrow>
   replaceUnitRuns (a @ c) = replaceUnitRuns a @ replaceUnitRuns c"
proof (induction a rule: replaceUnitRuns.induct)
  case 1
  then show ?case by simp
next
  case (2 u us)
  show ?case
  proof (cases "isUnitWhiteSpace u")
    case False
    have "us = [] \<or> \<not> isUnitWhiteSpace (last us)" using "2.prems" by (auto split: if_splits)
    from "2.IH"(2)[OF False this] show ?thesis using False by simp
  next
    case True
    with "2.prems" have ne: "us \<noteq> []" and l: "\<not> isUnitWhiteSpace (last us)"
      by (auto split: if_splits)
    have lin: "last us \<in> set us" using ne by simp
    have dw: "dropWhile isUnitWhiteSpace (us @ c) = dropWhile isUnitWhiteSpace us @ c"
      by (rule dropWhile_append1[of "last us" us isUnitWhiteSpace c, OF lin l])
    have dne: "dropWhile isUnitWhiteSpace us \<noteq> []"
      using lin l by (auto simp: dropWhile_eq_Nil_conv)
    have "last (dropWhile isUnitWhiteSpace us) = last us"
      using dne by (metis last_appendR takeWhile_dropWhile_id)
    then have "dropWhile isUnitWhiteSpace us = [] \<or>
               \<not> isUnitWhiteSpace (last (dropWhile isUnitWhiteSpace us))" using l by simp
    from "2.IH"(1)[OF True this] show ?thesis using True dw by simp
  qed
qed

lemma replaceUnitRuns_run:
  assumes "w \<noteq> []" and "list_all isUnitWhiteSpace w" and "b = [] \<or> \<not> isUnitWhiteSpace (hd b)"
  shows "replaceUnitRuns (w @ b) = 45 # replaceUnitRuns b"
proof -
  obtain u us where w: "w = u # us" using assms(1) by (cases w) auto
  have u: "isUnitWhiteSpace u" and us: "list_all isUnitWhiteSpace us" using assms(2) w by simp_all
  have "dropWhile isUnitWhiteSpace (us @ b) = dropWhile isUnitWhiteSpace b"
    using us by (induction us) simp_all
  also have "\<dots> = b" using assms(3) by (cases b) auto
  finally show ?thesis using w u by simp
qed

lemma replaceUnitRuns_collapse:
  assumes "a = [] \<or> \<not> isUnitWhiteSpace (last a)" and "w \<noteq> []" and "list_all isUnitWhiteSpace w"
    and "b = [] \<or> \<not> isUnitWhiteSpace (hd b)"
  shows "replaceUnitRuns (a @ w @ b) = replaceUnitRuns a @ 45 # replaceUnitRuns b"
  using replaceUnitRuns_append[OF assms(1), of "w @ b"] replaceUnitRuns_run[OF assms(2,3,4)]
  by simp


lemma of_char_le_255: "(of_char c :: nat) \<le> 255"
  using of_char_lt_256[of c] by linarith

lemma unat_unitOf: "unat (unitOf c) = of_char c"
proof -
  have "(of_char c :: nat) < 65536" using of_char_le_255[of c] by linarith
  then show ?thesis by (simp add: unitOf_def unat_of_nat)
qed

lemma isUnitWhiteSpace_unitOf: "isUnitWhiteSpace (unitOf c) = isWhiteSpace c"
  using of_char_le_255[of c]
  by (auto simp: isUnitWhiteSpace_def isWhiteSpace_def unat_unitOf Let_def)

lemma lowerLatin1Unit_unitOf: "lowerLatin1Unit (unitOf c) = unitOf (lowerChar c)"
proof -
  have u: "unat (unitOf c) = of_char c" by (rule unat_unitOf)
  have "unitOf c + 32 = unitOf (char_of (of_char c + 32 :: nat))" if "(of_char c :: nat) \<le> 222"
  proof -
    have "(of_char c + 32 :: nat) mod 256 = of_char c + 32" using that by simp
    then show ?thesis by (simp add: unitOf_def of_char_of)
  qed
  then show ?thesis
    by (auto simp: lowerLatin1Unit_def lowerChar_def u Let_def)
qed

lemma trimUnits_unitsOf: "trimUnits (unitsOf s) = unitsOf (trim s)"
proof -
  have dw: "dropWhile isUnitWhiteSpace (map unitOf x) = map unitOf (dropWhile isWhiteSpace x)" for x
    by (induction x) (simp_all add: isUnitWhiteSpace_unitOf)
  show ?thesis
    unfolding trimUnits_def trim_def unitsOf_def by (simp add: dw rev_map)
qed

lemma lowerLatin1_unitsOf: "lowerLatin1 (unitsOf s) = unitsOf (toLowerCase s)"
  by (simp add: lowerLatin1_def unitsOf_def toLowerCase_def lowerLatin1Unit_unitOf)

lemma replaceUnitRuns_unitsOf: "replaceUnitRuns (unitsOf s) = unitsOf (replaceWhiteSpaceRuns s)"
proof (induction s rule: replaceWhiteSpaceRuns.induct)
  case 1
  show ?case by (simp add: unitsOf_def)
next
  case (2 c cs)
  have dw: "dropWhile isUnitWhiteSpace (map unitOf x) = map unitOf (dropWhile isWhiteSpace x)" for x
    by (induction x) (simp_all add: isUnitWhiteSpace_unitOf)
  have h: "unitOf CHR ''-'' = 45" by (simp add: unitOf_def)
  show ?case
  proof (cases "isWhiteSpace c")
    case True
    from "2.IH"(1)[OF True] show ?thesis
      using True by (simp add: unitsOf_def isUnitWhiteSpace_unitOf dw h)
  next
    case False
    from "2.IH"(2)[OF False] show ?thesis
      using False by (simp add: unitsOf_def isUnitWhiteSpace_unitOf)
  qed
qed


lemma unitUnreserved_unitOf: "unitUnreserved (unitOf c) = uriUnreserved c"
proof -
  have e: "(c = d) = ((of_char c :: nat) = of_char d)" for d by simp
  show ?thesis
    unfolding unitUnreserved_def uriUnreserved_def unat_unitOf Let_def
    by (simp add: e)
qed

lemma hexUnit_unitOf: "k < 16 \<Longrightarrow> hexUnit k = unitOf (hexDigit k)"
  by (simp add: hexUnit_def hexDigit_def unitOf_def of_char_of)

lemma percentUnits_unitsOf: "percentUnits b = unitsOf (percentByte b)"
proof -
  have "b div 16 mod 16 < 16" "b mod 16 < 16" by simp_all
  then show ?thesis
    by (simp add: percentUnits_def percentByte_def unitsOf_def hexUnit_unitOf) (simp add: unitOf_def)
qed

lemma escapeUnits_unitOf:
  "\<not> uriUnreserved c \<Longrightarrow> escapeUnits (unat (unitOf c)) = unitsOf (encodeChar c)"
  using of_char_le_255[of c]
  by (auto simp: escapeUnits_def utf8_def encodeChar_def unat_unitOf Let_def percentUnits_unitsOf
      unitsOf_def)

lemma not_surrogate_unitOf: "\<not> isHighSurrogate (unitOf c)" "\<not> isLowSurrogate (unitOf c)"
  using of_char_le_255[of c]
  by (auto simp: isHighSurrogate_def isLowSurrogate_def unat_unitOf)

lemma encodeURIComponentUnits_unitsOf:
  "encodeURIComponentUnits (unitsOf s) = Inr (unitsOf (encodeURIComponent s))"
proof (induction s)
  case Nil
  show ?case by (simp add: unitsOf_def encodeURIComponent_def)
next
  case (Cons c cs)
  have IH: "encodeURIComponentUnits (map unitOf cs) = Inr (map unitOf (concat (map encodeChar cs)))"
    using Cons.IH by (simp add: unitsOf_def encodeURIComponent_def)
  show ?case
  proof (cases "uriUnreserved c")
    case True
    then show ?thesis
      using IH by (simp add: unitsOf_def encodeURIComponent_def unitUnreserved_unitOf encodeChar_def)
  next
    case False
    have "escapeUnits (unat (unitOf c)) = map unitOf (encodeChar c)"
      using escapeUnits_unitOf[OF False] by (simp add: unitsOf_def)
    then show ?thesis
      using False IH
      by (simp add: unitsOf_def encodeURIComponent_def unitUnreserved_unitOf not_surrogate_unitOf)
  qed
qed

lemma slugify_restriction:
  "slugifyUnits lowerLatin1 (unitsOf s) = Inr (unitsOf (slugify s))"
  by (simp add: slugifyUnits_def slugify_def trimUnits_unitsOf lowerLatin1_unitsOf
      replaceUnitRuns_unitsOf encodeURIComponentUnits_unitsOf)

text \<open>
  Claim C8, as the code has it. The default slug function is a function of its text alone.
  It trims the text (what it removes at either end is white space, and what is left
  neither starts nor ends with white space), lowercases it, replaces every maximal run of
  white space by one hyphen, so that no white space is left, and percent-encodes the
  result. When the result is well formed it returns a percent-encoded string, made of
  unreserved characters and escapes \<open>%XX\<close> only, which stands for the UTF-8 bytes of the
  result and holds no white space. When the result holds a surrogate that is not half of a
  pair, it throws a \<open>URIError\<close> and there is no output.
\<close>

theorem slugifyUnits_result:
  "(\<exists>pre post. s = pre @ trimUnits s @ post \<and>
       list_all isUnitWhiteSpace pre \<and> list_all isUnitWhiteSpace post) \<and>
   (trimUnits s \<noteq> [] \<longrightarrow>
       \<not> isUnitWhiteSpace (hd (trimUnits s)) \<and> \<not> isUnitWhiteSpace (last (trimUnits s))) \<and>
   (\<forall>a w b. toLower (trimUnits s) = a @ w @ b \<and> (a = [] \<or> \<not> isUnitWhiteSpace (last a)) \<and>
       w \<noteq> [] \<and> list_all isUnitWhiteSpace w \<and> (b = [] \<or> \<not> isUnitWhiteSpace (hd b)) \<longrightarrow>
       replaceUnitRuns (toLower (trimUnits s)) = replaceUnitRuns a @ 45 # replaceUnitRuns b) \<and>
   (list_all (\<lambda>u. \<not> isUnitWhiteSpace u) (toLower (trimUnits s)) \<longrightarrow>
       replaceUnitRuns (toLower (trimUnits s)) = toLower (trimUnits s)) \<and>
   list_all (\<lambda>u. \<not> isUnitWhiteSpace u) (replaceUnitRuns (toLower (trimUnits s))) \<and>
   (wellFormedUnits (replaceUnitRuns (toLower (trimUnits s))) \<longrightarrow>
      (\<exists>out. slugifyUnits toLower s = Inr out \<and> percentEncoded out \<and>
             percentDecode out =
               concat (map utf8 (codePoints (replaceUnitRuns (toLower (trimUnits s))))) \<and>
             list_all (\<lambda>u. \<not> isUnitWhiteSpace u) out)) \<and>
   (\<not> wellFormedUnits (replaceUnitRuns (toLower (trimUnits s))) \<longrightarrow>
      slugifyUnits toLower s = Inl URIError)"
proof -
  let ?y = "replaceUnitRuns (toLower (trimUnits s))"
  have ws_take: "list_all P (takeWhile P x)" for P :: "codeUnit \<Rightarrow> bool" and x
    by (induction x) simp_all
  let ?pre = "takeWhile isUnitWhiteSpace s"
  let ?post = "rev (takeWhile isUnitWhiteSpace (rev (dropWhile isUnitWhiteSpace s)))"
  have "s = ?pre @ trimUnits s @ ?post" by (rule trimUnits_parts)
  moreover have "list_all isUnitWhiteSpace ?pre" by (rule ws_take)
  moreover have "list_all isUnitWhiteSpace ?post" using ws_take[of isUnitWhiteSpace] by simp
  ultimately have 1: "\<exists>pre post. s = pre @ trimUnits s @ post \<and>
       list_all isUnitWhiteSpace pre \<and> list_all isUnitWhiteSpace post" by blast
  have 2: "trimUnits s \<noteq> [] \<longrightarrow>
       \<not> isUnitWhiteSpace (hd (trimUnits s)) \<and> \<not> isUnitWhiteSpace (last (trimUnits s))"
    using trimUnits_ends[of s] by blast
  have 3: "\<forall>a w b. toLower (trimUnits s) = a @ w @ b \<and> (a = [] \<or> \<not> isUnitWhiteSpace (last a)) \<and>
       w \<noteq> [] \<and> list_all isUnitWhiteSpace w \<and> (b = [] \<or> \<not> isUnitWhiteSpace (hd b)) \<longrightarrow>
       ?y = replaceUnitRuns a @ 45 # replaceUnitRuns b"
    using replaceUnitRuns_collapse by metis
  have 4: "list_all (\<lambda>u. \<not> isUnitWhiteSpace u) (toLower (trimUnits s)) \<longrightarrow>
       ?y = toLower (trimUnits s)"
    using replaceUnitRuns_id by blast
  have 5: "list_all (\<lambda>u. \<not> isUnitWhiteSpace u) ?y" by (rule replaceUnitRuns_not_ws)
  have 6: "\<exists>out. slugifyUnits toLower s = Inr out \<and> percentEncoded out \<and>
             percentDecode out = concat (map utf8 (codePoints ?y)) \<and>
             list_all (\<lambda>u. \<not> isUnitWhiteSpace u) out" if wf: "wellFormedUnits ?y"
  proof -
    from encode_wellFormed[OF wf] obtain out where o: "encodeURIComponentUnits ?y = Inr out" by blast
    from encode_Inr[OF o] percentEncoded_not_ws[of out] o show ?thesis
      by (auto simp: slugifyUnits_def)
  qed
  have 7: "slugifyUnits toLower s = Inl URIError" if "\<not> wellFormedUnits ?y"
    using encode_illFormed[OF that] by (simp add: slugifyUnits_def)
  show ?thesis using 1 2 3 4 5 6 7 by blast
qed

theorem slugifyUnits_result_witness:
  "slugifyUnits lowerLatin1 (unitsOf ''  Hello   World! '') = Inr (unitsOf ''hello-world!'') \<and>
   percentEncoded (unitsOf ''hello-world!'') \<and>
   percentDecode (unitsOf ''hello-world!'') =
     concat (map utf8 (codePoints (unitsOf ''hello-world!''))) \<and>
   list_all (\<lambda>u. \<not> isUnitWhiteSpace u) (unitsOf ''hello-world!'') \<and>
   slugifyUnits lowerLatin1 [0xD83D, 0xDE00, 0x20AC, 0x2003, 0x41] =
     Inr (unitsOf ''%F0%9F%98%80%E2%82%AC-a'') \<and>
   percentEncoded (unitsOf ''%F0%9F%98%80%E2%82%AC-a'') \<and>
   percentDecode (unitsOf ''%F0%9F%98%80%E2%82%AC-a'') =
     [0xF0, 0x9F, 0x98, 0x80, 0xE2, 0x82, 0xAC, 0x2D, 0x61] \<and>
   slugifyUnits lowerLatin1 [0x61, 0xDC00] = Inl URIError"
proof -
  let ?s1 = "unitsOf ''  Hello   World! ''" and ?o1 = "unitsOf ''hello-world!''"
  let ?s2 = "[0xD83D, 0xDE00, 0x20AC, 0x2003, 0x41] :: codeUnit list"
  let ?o2 = "unitsOf ''%F0%9F%98%80%E2%82%AC-a''"
  let ?s3 = "[0x61, 0xDC00] :: codeUnit list"
  have y1: "replaceUnitRuns (lowerLatin1 (trimUnits ?s1)) = ?o1" by (simp add: unit_defs)
  have y2: "replaceUnitRuns (lowerLatin1 (trimUnits ?s2)) = [0xD83D, 0xDE00, 0x20AC, 0x2D, 0x61]"
    by (simp add: unit_defs)
  have y3: "replaceUnitRuns (lowerLatin1 (trimUnits ?s3)) = ?s3" by (simp add: unit_defs)
  have w1: "wellFormedUnits ?o1" by (simp add: unit_defs)
  have w2: "wellFormedUnits [0xD83D, 0xDE00, 0x20AC, 0x2D, 0x61]" by (simp add: unit_defs)
  have w3: "\<not> wellFormedUnits ?s3" by (simp add: unit_defs)
  have e1: "slugifyUnits lowerLatin1 ?s1 = Inr ?o1" by (simp add: unit_defs)
  have e2: "slugifyUnits lowerLatin1 ?s2 = Inr ?o2" by (simp add: unit_defs)
  have c2: "concat (map utf8 (codePoints [0xD83D, 0xDE00, 0x20AC, 0x2D, 0x61 :: codeUnit])) =
              [0xF0, 0x9F, 0x98, 0x80, 0xE2, 0x82, 0xAC, 0x2D, 0x61]"
    by (simp add: unit_defs)
  from slugifyUnits_result[of ?s1 lowerLatin1] w1 e1
  have r1: "percentEncoded ?o1 \<and>
      percentDecode ?o1 = concat (map utf8 (codePoints ?o1)) \<and>
      list_all (\<lambda>u. \<not> isUnitWhiteSpace u) ?o1"
    unfolding y1 by auto
  from slugifyUnits_result[of ?s2 lowerLatin1] w2 e2
  have r2: "percentEncoded ?o2 \<and> percentDecode ?o2 = [0xF0, 0x9F, 0x98, 0x80, 0xE2, 0x82, 0xAC, 0x2D, 0x61]"
    unfolding y2 c2 by auto
  from slugifyUnits_result[of ?s3 lowerLatin1] w3
  have r3: "slugifyUnits lowerLatin1 ?s3 = Inl URIError"
    unfolding y3 by blast
  show ?thesis using e1 e2 r1 r2 r3 by blast
qed

text \<open>
  The claim as stated fails for a text with a lone surrogate, which every
  \<open>toLowerCase\<close> leaves as it is: there is no output, \<open>encodeURIComponent\<close> throws.
\<close>

theorem lone_surrogate_counterexample:
  "slugifyUnits lowerLatin1 [0xD800] = Inl URIError"
  by (simp add: unit_defs)

section \<open>The anchor of a headline\<close>

lemma headlineStep_open_id:
  assumes "tk_type openTok = ''heading_open''" and "tagLevel openTok = Some lvl" and "lvl \<in> set levels"
    and "findExistingIdAttr openTok = Some i" and "i \<noteq> []"
  shows "headlineStep levels opts st openTok =
           (fst st, Some \<lparr> h_level = lvl, h_anchor = Some i, h_text = None \<rparr>)"
  using assms by (simp add: headlineStep_def Let_def)

lemma headlineStep_inline_anchored:
  assumes "tk_type inlineTok = ''inline''" and "truthy (h_anchor cur)"
  shows "headlineStep levels opts (hs, Some cur) inlineTok =
           (hs, Some (cur\<lparr> h_text := Some (textContent inlineTok) \<rparr>))"
  using assms by (simp add: headlineStep_def Let_def)

lemma headlineStep_close:
  assumes "tk_type closeTok = ''heading_close''"
  shows "headlineStep levels opts (hs, Some cur) closeTok = (hs @ [cur], None)"
  using assms by (simp add: headlineStep_def Let_def)

lemma headlineStep_extends:
  "\<exists>more. fst (headlineStep levels opts (hs, cur) tok) = hs @ more"
  by (auto simp: headlineStep_def Let_def split: option.splits)

lemma headlineLoop_extends:
  "\<exists>more. fst (foldl (headlineStep levels opts) (hs, cur) toks) = hs @ more"
proof (induction toks arbitrary: hs cur)
  case Nil
  then show ?case by simp
next
  case (Cons tok toks)
  obtain hs1 cur1 where s: "headlineStep levels opts (hs, cur) tok = (hs1, cur1)"
    by (cases "headlineStep levels opts (hs, cur) tok")
  from headlineStep_extends[of levels opts hs cur tok] s obtain m1 where m1: "hs1 = hs @ m1"
    by auto
  from Cons.IH[of hs1 cur1] obtain m2 where
    "fst (foldl (headlineStep levels opts) (hs1, cur1) toks) = hs1 @ m2" by blast
  with s m1 show ?case by simp
qed

text \<open>
  Claim C4, as the code has it. For a heading of an included level whose opening token
  carries a non-empty \<open>id\<close> attribute, followed by its inline token and its closing
  token, the extractor emits the headline with that identifier as its anchor, whatever
  the slug function of the options is and wherever the heading stands in the token
  stream: the slug function is not consulted for it.
\<close>

theorem explicit_id_is_anchor:
  assumes "tk_type openTok = ''heading_open''" and "tagLevel openTok = Some lvl" and "lvl \<in> set levels"
    and "findExistingIdAttr openTok = Some i" and "i \<noteq> []"
    and "tk_type inlineTok = ''inline''" and "tk_type closeTok = ''heading_close''"
  shows "foldl (headlineStep levels opts) st [openTok, inlineTok, closeTok] =
           (fst st @ [\<lparr> h_level = lvl, h_anchor = Some i, h_text = Some (textContent inlineTok) \<rparr>], None) \<and>
         (\<exists>more. findHeadlineElements levels (pre @ [openTok, inlineTok, closeTok] @ post) opts =
            findHeadlineElements levels pre opts @
            \<lparr> h_level = lvl, h_anchor = Some i, h_text = Some (textContent inlineTok) \<rparr> # more)"
proof -
  let ?item = "\<lparr> h_level = lvl, h_anchor = Some i, h_text = Some (textContent inlineTok) \<rparr>"
  have seg: "foldl (headlineStep levels opts) s [openTok, inlineTok, closeTok] = (fst s @ [?item], None)" for s
    using assms
    by (simp add: headlineStep_open_id headlineStep_inline_anchored headlineStep_close)
  let ?s = "foldl (headlineStep levels opts) ([], None) pre"
  have "findHeadlineElements levels (pre @ [openTok, inlineTok, closeTok] @ post) opts =
          fst (foldl (headlineStep levels opts) (fst ?s @ [?item], None) post)"
    unfolding findHeadlineElements_def foldl_append seg ..
  moreover obtain more where
    "fst (foldl (headlineStep levels opts) (fst ?s @ [?item], None) post) = (fst ?s @ [?item]) @ more"
    using headlineLoop_extends by blast
  ultimately have "findHeadlineElements levels (pre @ [openTok, inlineTok, closeTok] @ post) opts =
      findHeadlineElements levels pre opts @ ?item # more"
    by (simp add: findHeadlineElements_def)
  then show ?thesis using seg by blast
qed

theorem explicit_id_is_anchor_witness:
  \<open>findHeadlineElements [1, 2]
     [\<lparr> tk_type = ''heading_open'', tk_tag = ''h1'', tk_attrs = Some [[''id'', ''custom-id'']],
         tk_children = [], tk_content = [], tk_markup = ''#'', tk_nesting = 1 \<rparr>,
      \<lparr> tk_type = ''inline'', tk_tag = [], tk_attrs = None,
         tk_children = [\<lparr> c_type = ''text'', c_content = ''Hello World'' \<rparr>],
         tk_content = ''Hello World'', tk_markup = [], tk_nesting = 0 \<rparr>,
      \<lparr> tk_type = ''heading_close'', tk_tag = ''h1'', tk_attrs = None, tk_children = [],
         tk_content = [], tk_markup = ''#'', tk_nesting = - 1 \<rparr>] (defaults (\<lambda>s. s))
     = [\<lparr> h_level = 1, h_anchor = Some ''custom-id'', h_text = Some ''Hello World'' \<rparr>] \<and>
   toc_body (defaults (\<lambda>s. s))
     [\<lparr> tk_type = ''heading_open'', tk_tag = ''h1'', tk_attrs = Some [[''id'', ''custom-id'']],
         tk_children = [], tk_content = [], tk_markup = ''#'', tk_nesting = 1 \<rparr>,
      \<lparr> tk_type = ''inline'', tk_tag = [], tk_attrs = None,
         tk_children = [\<lparr> c_type = ''text'', c_content = ''Hello World'' \<rparr>],
         tk_content = ''Hello World'', tk_markup = [], tk_nesting = 0 \<rparr>,
      \<lparr> tk_type = ''heading_close'', tk_tag = ''h1'', tk_attrs = None, tk_children = [],
         tk_content = [], tk_markup = ''#'', tk_nesting = - 1 \<rparr>]
     = Inr ''<ul><li><a href="#custom-id">Hello World</a></li></ul>'' \<and>
   slugify ''Hello World'' = ''hello-world''\<close>
proof -
  let ?o = "\<lparr> tk_type = ''heading_open'', tk_tag = ''h1'', tk_attrs = Some [[''id'', ''custom-id'']],
         tk_children = [], tk_content = [], tk_markup = ''#'', tk_nesting = 1 \<rparr>"
  let ?i = "\<lparr> tk_type = ''inline'', tk_tag = [], tk_attrs = None,
         tk_children = [\<lparr> c_type = ''text'', c_content = ''Hello World'' \<rparr>],
         tk_content = ''Hello World'', tk_markup = [], tk_nesting = 0 \<rparr>"
  let ?c = "\<lparr> tk_type = ''heading_close'', tk_tag = ''h1'', tk_attrs = None, tk_children = [],
         tk_content = [], tk_markup = ''#'', tk_nesting = - 1 \<rparr>"
  let ?d = "defaults (\<lambda>s. s)"
  have 1: "tk_type ?o = ''heading_open''" by simp
  have 2: "tagLevel ?o = Some 1"
    by (simp add: tagLevel_def parseInt_def toLowerCase_def lowerChar_def isWhiteSpace_def
        parseDigits_def isDigit_def digitsValue_def)
  have 3: "(1::int) \<in> set [1, 2]" by simp
  have 4: "findExistingIdAttr ?o = Some ''custom-id''" by (simp add: findExistingIdAttr_def)
  have 5: "''custom-id'' \<noteq> []" by simp
  have 6: "tk_type ?i = ''inline''" by simp
  have 7: "tk_type ?c = ''heading_close''" by simp
  have t: "textContent ?i = ''Hello World''" by (simp add: textContent_def)
  from explicit_id_is_anchor[OF 1 2 3 4 5 6 7, of ?d "([], None)"]
  have "foldl (headlineStep [1, 2] ?d) ([], None) [?o, ?i, ?c] =
          ([\<lparr> h_level = 1, h_anchor = Some ''custom-id'', h_text = Some ''Hello World'' \<rparr>], None)"
    unfolding t by simp
  then have f: "findHeadlineElements [1, 2] [?o, ?i, ?c] ?d =
      [\<lparr> h_level = 1, h_anchor = Some ''custom-id'', h_text = Some ''Hello World'' \<rparr>]"
    unfolding findHeadlineElements_def by simp
  have b: "buildTree [\<lparr> h_level = 1, h_anchor = Some ''custom-id'', h_text = Some ''Hello World'' \<rparr>]
     = Inr (TocTree 0 (Num 0) None None [TocTree 1 (Num 1) (Some ''Hello World'') (Some ''custom-id'') []])"
    by (simp add: buildTree_def flatHeadlineItemsToNestedTree_def initialBuilder_def getMinLevel_def
        treeStep_def addListItem_def Let_def)
  have il: "includeLevel ?d = [1, 2]" "\<not> forceFullToc ?d" by (simp_all add: defaults_def)
  have r: \<open>tocItemToHtml (TocTree 0 (Num 0) None None [TocTree 1 (Num 1) (Some ''Hello World'') (Some ''custom-id'') []]) ?d 0
     = ''<ul><li><a href="#custom-id">Hello World</a></li></ul>''\<close>
    by (simp add: defaults_def)
  have tb: \<open>toc_body ?d [?o, ?i, ?c] = Inr ''<ul><li><a href="#custom-id">Hello World</a></li></ul>''\<close>
    using il f b r by (simp add: toc_body_def)
  have s: "slugify ''Hello World'' = ''hello-world''" by code_simp
  from f tb s show ?thesis by blast
qed

text \<open>
  The claim as stated fails for an identifier attribute that is present and empty:
  \<open>id || null\<close> is then \<open>null\<close>, and the anchor is the slug of the text.
\<close>

theorem empty_id_counterexample:
  \<open>findExistingIdAttr
     \<lparr> tk_type = ''heading_open'', tk_tag = ''h1'', tk_attrs = Some [[''id'', '''']],
        tk_children = [], tk_content = [], tk_markup = ''#'', tk_nesting = 1 \<rparr> = Some [] \<and>
   findHeadlineElements [1, 2]
     [\<lparr> tk_type = ''heading_open'', tk_tag = ''h1'', tk_attrs = Some [[''id'', '''']],
         tk_children = [], tk_content = [], tk_markup = ''#'', tk_nesting = 1 \<rparr>,
      \<lparr> tk_type = ''inline'', tk_tag = [], tk_attrs = None,
         tk_children = [\<lparr> c_type = ''text'', c_content = ''Hello World'' \<rparr>],
         tk_content = ''Hello World'', tk_markup = [], tk_nesting = 0 \<rparr>,
      \<lparr> tk_type = ''heading_close'', tk_tag = ''h1'', tk_attrs = None, tk_children = [],
         tk_content = [], tk_markup = ''#'', tk_nesting = - 1 \<rparr>] (defaults (\<lambda>s. s))
     = [\<lparr> h_level = 1, h_anchor = Some (slugify ''Hello World''), h_text = Some ''Hello World'' \<rparr>]\<close>
  by (simp add: defaults_def findHeadlineElements_def headlineStep_def tagLevel_def parseInt_def
        toLowerCase_def lowerChar_def isWhiteSpace_def parseDigits_def isDigit_def digitsValue_def
        findExistingIdAttr_def textContent_def Let_def)

section \<open>An item with an anchor and no text\<close>

text \<open>
  Claim C10, as the code has it. An item whose anchor (after \<open>transformLink\<close>, when that
  is configured) is truthy, that is neither \<open>null\<close> nor empty, and whose text is \<open>null\<close>
  or empty, is rendered as a link whose display text is the four characters \<open>null\<close>.
\<close>

theorem childItemToHtml_null_text:
  assumes "truthy (case transformLink opts of None \<Rightarrow> n_anchor childItem | Some f \<Rightarrow> f (n_anchor childItem))"
    and "\<not> truthy (n_text childItem)"
  shows \<open>childItemToHtml childItem opts counter =
     ''<li><a href="#'' @
     the (case transformLink opts of None \<Rightarrow> n_anchor childItem | Some f \<Rightarrow> f (n_anchor childItem)) @
     ''">null</a>'' @
     (if n_children childItem \<noteq> [] then tocItemToHtml childItem opts (counter + 1) else []) @
     ''</li>''\<close>
  using assms by (simp add: Let_def)

theorem childItemToHtml_null_text_witness:
  \<open>childItemToHtml (TocTree 1 (Num 1) None (Some ''custom-id'') []) (defaults (\<lambda>s. s)) 0 =
     ''<li><a href="#custom-id">null</a></li>''\<close>
proof -
  let ?c = "TocTree 1 (Num 1) None (Some ''custom-id'') []"
  let ?d = "defaults (\<lambda>s. s)"
  have 1: "truthy (case transformLink ?d of None \<Rightarrow> n_anchor ?c | Some f \<Rightarrow> f (n_anchor ?c))"
    by (simp add: defaults_def)
  have 2: "\<not> truthy (n_text ?c)" by simp
  from childItemToHtml_null_text[OF 1 2, of 0] show ?thesis
    by (simp add: defaults_def)
qed

text \<open>
  The claim as stated fails for an anchor that is not \<open>null\<close> but empty. The heading
  \<open>#\<close> with no text has the empty text and the empty slug as its anchor, and its item
  is rendered with no link at all.
\<close>

theorem empty_anchor_counterexample:
  \<open>findHeadlineElements [1, 2]
     [\<lparr> tk_type = ''heading_open'', tk_tag = ''h1'', tk_attrs = None, tk_children = [],
         tk_content = [], tk_markup = ''#'', tk_nesting = 1 \<rparr>,
      \<lparr> tk_type = ''inline'', tk_tag = [], tk_attrs = None, tk_children = [],
         tk_content = [], tk_markup = [], tk_nesting = 0 \<rparr>,
      \<lparr> tk_type = ''heading_close'', tk_tag = ''h1'', tk_attrs = None, tk_children = [],
         tk_content = [], tk_markup = ''#'', tk_nesting = - 1 \<rparr>] (defaults (\<lambda>s. s))
     = [\<lparr> h_level = 1, h_anchor = Some [], h_text = Some [] \<rparr>] \<and>
   buildTree [\<lparr> h_level = 1, h_anchor = Some [], h_text = Some [] \<rparr>]
     = Inr (TocTree 0 (Num 0) None None [TocTree 1 (Num 1) (Some []) (Some []) []]) \<and>
   tocItemToHtml (TocTree 0 (Num 0) None None [TocTree 1 (Num 1) (Some []) (Some []) []])
     (defaults (\<lambda>s. s)) 0 = ''<ul><li></li></ul>''\<close>
  by (simp add: defaults_def findHeadlineElements_def headlineStep_def tagLevel_def parseInt_def
        toLowerCase_def lowerChar_def isWhiteSpace_def parseDigits_def isDigit_def digitsValue_def
        findExistingIdAttr_def textContent_def slugify_def trim_def encodeURIComponent_def
        buildTree_def flatHeadlineItemsToNestedTree_def initialBuilder_def getMinLevel_def
        treeStep_def addListItem_def Let_def)

section \<open>Bridging a level jump\<close>

text \<open>
  Claim C1, as the code has it. For the headlines \<open>A\<close> of level 1 and \<open>B\<close> of level 3,
  the root's only child is the item of \<open>A\<close>; the only child of that item is a synthetic
  item with no text and no anchor, whose only child is the item of \<open>B\<close>. In the markup
  the item of \<open>A\<close> comes first, and the item of \<open>B\<close> stands inside one more list, that of
  the unlabeled synthetic item.
\<close>

theorem level_skip_bridging:
  \<open>buildTree [\<lparr> h_level = 1, h_anchor = a, h_text = Some ''A'' \<rparr>,
              \<lparr> h_level = 3, h_anchor = b, h_text = Some ''B'' \<rparr>]
     = Inr (TocTree 0 (Num 0) None None
             [TocTree 1 (Num 1) (Some ''A'') a
               [TocTree 2 (Num 3) None None
                 [TocTree 3 (Num 3) (Some ''B'') b []]]]) \<and>
   tocItemToHtml (TocTree 0 (Num 0) None None
             [TocTree 1 (Num 1) (Some ''A'') (Some ''a'')
               [TocTree 2 (Num 3) None None
                 [TocTree 3 (Num 3) (Some ''B'') (Some ''b'') []]]]) (defaults renderInline) 0
     = ''<ul><li><a href="#a">'' @ renderInline ''A'' @ ''</a><ul><li><ul><li><a href="#b">'' @
       renderInline ''B'' @ ''</a></li></ul></li></ul></li></ul>''\<close>
  by (simp add: buildTree_def flatHeadlineItemsToNestedTree_def initialBuilder_def getMinLevel_def
      treeStep_def addListItem_def Let_def eval_nat_numeral defaults_def)

text \<open>
  The claim as stated fails: the root's only child carries the text \<open>A\<close>, it is not a
  synthetic item, and \<open>A\<close> stands in the markup.
\<close>

theorem level_skip_counterexample:
  \<open>buildTree [\<lparr> h_level = 1, h_anchor = Some ''a'', h_text = Some ''A'' \<rparr>,
              \<lparr> h_level = 3, h_anchor = Some ''b'', h_text = Some ''B'' \<rparr>]
     = Inr (TocTree 0 (Num 0) None None
             [TocTree 1 (Num 1) (Some ''A'') (Some ''a'')
               [TocTree 2 (Num 3) None None
                 [TocTree 3 (Num 3) (Some ''B'') (Some ''b'') []]]]) \<and>
   map n_text (n_children (TocTree 0 (Num 0) None None
             [TocTree 1 (Num 1) (Some ''A'') (Some ''a'')
               [TocTree 2 (Num 3) None None
                 [TocTree 3 (Num 3) (Some ''B'') (Some ''b'') []]]])) = [Some ''A''] \<and>
   tocItemToHtml (TocTree 0 (Num 0) None None
             [TocTree 1 (Num 1) (Some ''A'') (Some ''a'')
               [TocTree 2 (Num 3) None None
                 [TocTree 3 (Num 3) (Some ''B'') (Some ''b'') []]]]) (defaults (\<lambda>s. s)) 0
     = ''<ul><li><a href="#a">A</a><ul><li><ul><li><a href="#b">B</a></li></ul></li></ul></li></ul>''\<close>
  by (simp add: buildTree_def flatHeadlineItemsToNestedTree_def initialBuilder_def getMinLevel_def
      treeStep_def addListItem_def Let_def eval_nat_numeral defaults_def)

section \<open>The tree loop\<close>

lemma n_addr_graft [simp]: "n_addr (graft d sub t) = n_addr t"
  by (cases t; cases d) simp_all

lemma spine_nonempty [simp]: "spine t \<noteq> []"
  by (cases t) simp

lemma preorder_graft:
  "d < length (spine t) \<Longrightarrow>
   preorder d0 (graft d (leaf a lvl txt anc) t) =
     preorder d0 t @ [\<lparr> v_depth = d0 + d + 1, v_addr = a, v_level = Num lvl, v_text = txt, v_anchor = anc \<rparr>]"
proof (induction d arbitrary: t d0)
  case 0
  then show ?case by (cases t) (simp add: leaf_def)
next
  case (Suc d)
  obtain b l x y cs where t: "t = TocTree b l x y cs" by (cases t)
  with Suc.prems have ne: "cs \<noteq> []" and d: "d < length (spine (last cs))"
    by (auto split: if_splits)
  have cs: "cs = butlast cs @ [last cs]" using ne by simp
  have "concat (map (preorder (Suc d0)) cs) =
        concat (map (preorder (Suc d0)) (butlast cs)) @ preorder (Suc d0) (last cs)"
    by (subst cs) simp
  with Suc.IH[OF d, of "Suc d0"] t ne show ?case by simp
qed

lemma spine_graft:
  "d < length (spine t) \<Longrightarrow>
   spine (graft d (leaf a lvl txt anc) t) = take (Suc d) (spine t) @ [a]"
proof (induction d arbitrary: t)
  case 0
  then show ?case by (cases t) (simp add: leaf_def)
next
  case (Suc d)
  obtain b l x y cs where t: "t = TocTree b l x y cs" by (cases t)
  with Suc.prems have ne: "cs \<noteq> []" and d: "d < length (spine (last cs))"
    by (auto split: if_splits)
  from Suc.IH[OF d] t ne show ?case by simp
qed

lemma repr_frame:
  "repr hp p t \<Longrightarrow> length hp \<le> length hp' \<Longrightarrow>
   (\<And>x. x \<in> v_addr ` set (preorder d t) \<Longrightarrow> hp' ! x = hp ! x) \<Longrightarrow> repr hp' p t"
proof (induction t arbitrary: p d)
  case (TocTree a lvl tx anc cs)
  have same: "hp' ! a = hp ! a" using TocTree.prems(3)[of a] by simp
  have kids: "repr hp' (Some a) c" if c: "c \<in> set cs" for c
  proof (rule TocTree.IH[OF c, of "Some a" "Suc d"])
    show "repr hp (Some a) c" using TocTree.prems(1) c by (simp add: list_all_iff)
    show "length hp \<le> length hp'" by fact
    fix x assume "x \<in> v_addr ` set (preorder (Suc d) c)"
    then have "x \<in> v_addr ` set (preorder d (TocTree a lvl tx anc cs))" using c by auto
    then show "hp' ! x = hp ! x" by (rule TocTree.prems(3))
  qed
  show ?case using TocTree.prems(1,2) same kids by (simp add: list_all_iff)
qed

lemma spine_subset: "set (spine t) \<subseteq> v_addr ` set (preorder d t)"
proof (induction t arbitrary: d)
  case (TocTree a lvl tx anc cs)
  show ?case
  proof (cases "cs = []")
    case True
    then show ?thesis by simp
  next
    case False
    then have l: "last cs \<in> set cs" by simp
    have "set (spine (last cs)) \<subseteq> v_addr ` (\<Union>c\<in>set cs. set (preorder (Suc d) c))"
      using TocTree.IH[OF l, of "Suc d"] l by blast
    then show ?thesis using False by auto
  qed
qed

lemma nth_spine_in: "d < length (spine t) \<Longrightarrow> spine t ! d \<in> v_addr ` set (preorder d0 t)"
  using spine_subset[of t d0] nth_mem[of d "spine t"] by blast

lemma repr_graft:
  assumes "repr hp p t"
    and "distinct (map v_addr (preorder d0 t))"
    and "\<And>x. x \<in> v_addr ` set (preorder d0 t) \<Longrightarrow> x < length hp"
    and "d < length (spine t)"
    and "c = spine t ! d"
    and "hp' = (hp @ [\<lparr> t_level = Num lvl, t_text = tx, t_anchor = anc, t_children = [],
                         t_parent = Some c \<rparr>])
                 [c := (hp ! c)\<lparr> t_children := t_children (hp ! c) @ [length hp] \<rparr>]"
  shows "repr hp' p (graft d (leaf (length hp) lvl tx anc) t)"
  using assms
proof (induction d arbitrary: t p d0)
  case 0
  obtain a l x y cs where t: "t = TocTree a l x y cs" by (cases t)
  have c: "c = a" using 0 t by simp
  have a: "a < length hp" using 0 t by simp
  have len: "length hp \<le> length hp'" using 0 by simp
  have len': "length hp < length hp'" using 0 by simp
  have hpa: "hp' ! a = (hp ! a)\<lparr> t_children := t_children (hp ! a) @ [length hp] \<rparr>"
    using 0(6) c a by (simp add: nth_append)
  have hpn: "hp' ! length hp = \<lparr> t_level = Num lvl, t_text = tx, t_anchor = anc, t_children = [],
                         t_parent = Some a \<rparr>"
    using 0(6) c a by simp
  have kids: "repr hp' (Some a) k" if k: "k \<in> set cs" for k
  proof (rule repr_frame[where d = "Suc d0"])
    show "repr hp (Some a) k" using 0(1) t k by (simp add: list_all_iff)
    show "length hp \<le> length hp'" by (rule len)
    fix x assume x: "x \<in> v_addr ` set (preorder (Suc d0) k)"
    then have xin: "x \<in> v_addr ` (\<Union>k\<in>set cs. set (preorder (Suc d0) k))" using k by blast
    then have "x < length hp" using 0(3)[of x] t by simp
    moreover have "x \<noteq> a" using 0(2) t xin by auto
    ultimately show "hp' ! x = hp ! x" using 0(6) c by (simp add: nth_append)
  qed
  show ?case
    using 0(1) t a hpa hpn kids len' by (simp add: leaf_def list_all_iff)
next
  case (Suc d)
  obtain a l x y cs where t: "t = TocTree a l x y cs" by (cases t)
  with Suc.prems(4) have ne: "cs \<noteq> []" and d: "d < length (spine (last cs))"
    by (auto split: if_splits)
  have cs: "cs = butlast cs @ [last cs]" using ne by simp
  have c: "c = spine (last cs) ! d" using Suc.prems(5) t ne by simp
  have cin: "c \<in> v_addr ` set (preorder (Suc d0) (last cs))"
    unfolding c by (rule nth_spine_in[OF d])
  have a: "a < length hp" using Suc.prems(1) t by simp
  have len: "length hp \<le> length hp'" using Suc.prems(6) by simp
  have pre: "preorder d0 t = \<lparr> v_depth = d0, v_addr = a, v_level = l, v_text = x, v_anchor = y \<rparr> #
      concat (map (preorder (Suc d0)) (butlast cs)) @ preorder (Suc d0) (last cs)"
    unfolding t by (subst cs) simp
  have dist: "distinct (map v_addr (preorder (Suc d0) (last cs)))"
    and anot: "a \<notin> v_addr ` set (preorder (Suc d0) (last cs))"
    and disj: "v_addr ` set (concat (map (preorder (Suc d0)) (butlast cs))) \<inter>
               v_addr ` set (preorder (Suc d0) (last cs)) = {}"
    using Suc.prems(2) unfolding pre by auto
  have bnd: "x < length hp" if "x \<in> v_addr ` set (preorder (Suc d0) (last cs))" for x
    using Suc.prems(3)[of x] that unfolding pre by auto
  have bnd2: "x < length hp" if "x \<in> v_addr ` set (concat (map (preorder (Suc d0)) (butlast cs)))" for x
    using Suc.prems(3)[of x] that unfolding pre by auto
  have ca: "c \<noteq> a" using cin anot by auto
  have hpa: "hp' ! a = hp ! a"
    using Suc.prems(6) ca a by (simp add: nth_append)
  have lastr: "repr hp (Some a) (last cs)"
    using Suc.prems(1) t ne by (simp add: list_all_iff)
  have IH: "repr hp' (Some a) (graft d (leaf (length hp) lvl tx anc) (last cs))"
    by (rule Suc.IH[OF lastr dist bnd d c Suc.prems(6)])
  have kids: "repr hp' (Some a) k" if k: "k \<in> set (butlast cs)" for k
  proof (rule repr_frame[where d = "Suc d0"])
    show "repr hp (Some a) k" using Suc.prems(1) t k in_set_butlastD[OF k] by (simp add: list_all_iff)
    show "length hp \<le> length hp'" by (rule len)
    fix x assume x: "x \<in> v_addr ` set (preorder (Suc d0) k)"
    then have xin: "x \<in> v_addr ` set (concat (map (preorder (Suc d0)) (butlast cs)))" using k by auto
    then have "x < length hp" by (rule bnd2)
    moreover have "x \<noteq> c" using xin cin disj by blast
    ultimately show "hp' ! x = hp ! x" using Suc.prems(6) by (simp add: nth_append)
  qed
  have addrs: "map n_addr (butlast cs @ [graft d (leaf (length hp) lvl tx anc) (last cs)]) = map n_addr cs"
    by (subst (2) cs) simp
  have "list_all (repr hp' (Some a)) (butlast cs @ [graft d (leaf (length hp) lvl tx anc) (last cs)])"
    using kids IH by (simp add: list_all_iff)
  then show ?case
    using Suc.prems(1) t ne a hpa len addrs by simp
qed

lemma addListItem_eq:
  "c < length hp \<Longrightarrow>
   addListItem lvl tx anc c hp =
     (length hp,
      (hp @ [\<lparr> t_level = Num lvl, t_text = tx, t_anchor = anc, t_children = [], t_parent = Some c \<rparr>])
        [c := (hp ! c)\<lparr> t_children := t_children (hp ! c) @ [length hp] \<rparr>])"
  by (simp add: addListItem_def Let_def nth_append)

lemma spine_bound:
  assumes "shape b t" and "d < length (spine t)"
  shows "spine t ! d < length (heap b)"
proof -
  have "spine t ! d \<in> v_addr ` set (preorder 0 t)" by (rule nth_spine_in[OF assms(2)])
  then have "spine t ! d \<in> set (map v_addr (preorder 0 t))" by simp
  then show ?thesis using assms(1) unfolding shape_def by simp
qed

lemma addListItem_shape:
  fixes lvl :: int and tx anc :: "string option"
  assumes sh: "shape b t" and d: "d < length (spine t)"
  defines "b' \<equiv> \<lparr> heap = snd (addListItem lvl tx anc (spine t ! d) (heap b)),
                   currentRootNode = spine t ! d, prevListItem = length (heap b) \<rparr>"
  shows "shape b' (graft d (leaf (length (heap b)) lvl tx anc) t)"
    and "length (heap b') = Suc (length (heap b))"
    and "t_level (heap b' ! length (heap b)) = Num lvl"
    and "fst (addListItem lvl tx anc (spine t ! d) (heap b)) = length (heap b)"
proof -
  let ?hp = "heap b" and ?c = "spine t ! d"
  let ?new = "\<lparr> t_level = Num lvl, t_text = tx, t_anchor = anc, t_children = [], t_parent = Some ?c \<rparr>"
  let ?hp' = "(?hp @ [?new])[?c := (?hp ! ?c)\<lparr> t_children := t_children (?hp ! ?c) @ [length ?hp] \<rparr>]"
  have c: "?c < length ?hp" by (rule spine_bound[OF sh d])
  have eq: "addListItem lvl tx anc ?c ?hp = (length ?hp, ?hp')" by (rule addListItem_eq[OF c])
  have hb: "heap b' = ?hp'" unfolding b'_def eq by simp
  have r: "repr ?hp None t" and ad: "map v_addr (preorder 0 t) = [0..<length ?hp]"
    using sh unfolding shape_def by simp_all
  have dist: "distinct (map v_addr (preorder 0 t))" unfolding ad by simp
  have bnd: "x < length ?hp" if "x \<in> v_addr ` set (preorder 0 t)" for x
  proof -
    from that have "x \<in> set (map v_addr (preorder 0 t))" by simp
    then show ?thesis unfolding ad by simp
  qed
  have rg: "repr ?hp' None (graft d (leaf (length ?hp) lvl tx anc) t)"
    by (rule repr_graft[OF r dist bnd d refl refl])
  have pg: "map v_addr (preorder 0 (graft d (leaf (length ?hp) lvl tx anc) t)) = [0..<length ?hp']"
    by (simp add: preorder_graft[OF d] ad)
  have sg: "spine (graft d (leaf (length ?hp) lvl tx anc) t) = take (Suc d) (spine t) @ [length ?hp]"
    by (rule spine_graft[OF d])
  have cur: "(take (Suc d) (spine t) @ [length ?hp]) ! (length (take (Suc d) (spine t) @ [length ?hp]) - 2) = ?c"
  proof -
    have l: "length (take (Suc d) (spine t)) = Suc d" using d by simp
    have "(take (Suc d) (spine t) @ [length ?hp]) ! d = take (Suc d) (spine t) ! d"
      using d by (simp add: nth_append)
    then show ?thesis using d by (simp add: l)
  qed
  show "shape b' (graft d (leaf (length (heap b)) lvl tx anc) t)"
    unfolding shape_def hb sg using rg pg cur by (simp add: b'_def)
  show "length (heap b') = Suc (length (heap b))" unfolding hb by simp
  show "t_level (heap b' ! length (heap b)) = Num lvl" unfolding hb using c by simp
  show "fst (addListItem lvl tx anc (spine t ! d) (heap b)) = length (heap b)" unfolding eq by simp
qed

lemma repr_parent:
  "repr hp p t \<Longrightarrow> Suc i < length (spine t) \<Longrightarrow>
   t_parent (hp ! (spine t ! Suc i)) = Some (spine t ! i)"
proof (induction i arbitrary: t p)
  case 0
  obtain a l x y cs where t: "t = TocTree a l x y cs" by (cases t)
  with 0(2) have ne: "cs \<noteq> []" by (auto split: if_splits)
  obtain a' l' x' y' cs' where k: "last cs = TocTree a' l' x' y' cs'" by (cases "last cs")
  have "repr hp (Some a) (last cs)" using 0(1) t ne by (simp add: list_all_iff)
  then show ?case using t ne k by simp
next
  case (Suc i)
  obtain a l x y cs where t: "t = TocTree a l x y cs" by (cases t)
  with Suc.prems(2) have ne: "cs \<noteq> []" and i: "Suc i < length (spine (last cs))"
    by (auto split: if_splits)
  have "repr hp (Some a) (last cs)" using Suc.prems(1) t ne by (simp add: list_all_iff)
  from Suc.IH[OF this i] show ?case using t ne by simp
qed

lemma ascend_spine:
  "repr hp p t \<Longrightarrow> m \<le> i \<Longrightarrow> i < length (spine t) \<Longrightarrow>
   ascend m hp (spine t ! i) = Inr (spine t ! (i - m))"
proof (induction m arbitrary: i)
  case 0
  then show ?case by simp
next
  case (Suc m)
  then obtain j where j: "i = Suc j" by (cases i) auto
  have "t_parent (hp ! (spine t ! Suc j)) = Some (spine t ! j)"
    using Suc.prems j by (intro repr_parent) auto
  moreover have "ascend m hp (spine t ! j) = Inr (spine t ! (j - m))"
    using Suc.prems j by (intro Suc.IH) auto
  ultimately show ?case using j by simp
qed

lemma descend_Suc_end: "descend (Suc j) lvl b = addStep lvl (descend j lvl b)"
proof (induction j arbitrary: b)
  case 0
  show ?case by (simp add: addStep_def Let_def split: prod.split)
next
  case (Suc j)
  have "descend (Suc (Suc j)) lvl b = descend (Suc j) lvl (addStep lvl b)"
    by (simp add: addStep_def Let_def split: prod.split)
  also have "\<dots> = addStep lvl (descend j lvl (addStep lvl b))" by (rule Suc.IH)
  also have "descend j lvl (addStep lvl b) = descend (Suc j) lvl b"
    by (simp add: addStep_def Let_def split: prod.split)
  finally show ?case .
qed

lemma addListItem_fill:
  assumes "c < length hp"
  shows "(snd (addListItem lvl None None c hp))
           [length hp := (snd (addListItem lvl None None c hp) ! length hp)
                           \<lparr> t_text := tx, t_anchor := anc \<rparr>]
         = snd (addListItem lvl tx anc c hp)"
  using assms
  by (simp add: addListItem_eq list_update_swap[of c "length hp"] list_update_append nth_append)

lemma map_plus_upt: "map (\<lambda>i. n + i) [0..<j] = [n..<n + j]"
  by (induction j) simp_all

lemma synthVisits_Suc:
  "synthVisits k n lvl (Suc j) =
     \<lparr> v_depth = k, v_addr = n, v_level = Num lvl, v_text = None, v_anchor = None \<rparr> #
     synthVisits (Suc k) (Suc n) lvl j"
  unfolding synthVisits_def
  by (simp add: upt_conv_Cons map_Suc_upt[symmetric] del: upt_Suc)

lemma shape_prev:
  "shape b t \<Longrightarrow> prevListItem b = spine t ! (length (spine t) - 1)"
  unfolding shape_def by (simp add: last_conv_nth)

lemma n_level_graft [simp]: "n_level (graft d sub t) = n_level t"
  by (cases t; cases d) simp_all

lemma synthG_mono:
  "synthG F opn t \<Longrightarrow> F \<subseteq> F' \<Longrightarrow> synthG F' opn t"
proof (induction F opn t rule: synthG.induct)
  case (1 F opn a lvl tx anc cs)
  show ?case
  proof (cases "cs = []")
    case True
    then show ?thesis using "1.prems" by auto
  next
    case False
    have a: "\<forall>c\<in>set (butlast cs). synthG F' None c"
      using "1.IH"(1)[OF False] "1.prems" False by auto
    have b: "synthG F' opn (last cs)"
      using "1.IH"(2)[OF False] "1.prems" False by auto
    show ?thesis using False a b "1.prems" by auto
  qed
qed

lemma synthG_open: "synthG F None t \<Longrightarrow> synthG F opn t"
proof (induction F opn t rule: synthG.induct)
  case (1 F opn a lvl tx anc cs)
  show ?case
  proof (cases "cs = []")
    case True
    then show ?thesis using "1.prems" by auto
  next
    case False
    have b: "synthG F opn (last cs)"
      using "1.IH"(2)[OF False] "1.prems" False by auto
    show ?thesis using False b "1.prems" by auto
  qed
qed

lemma synthG_close: "synthG F opn t \<Longrightarrow> last (spine t) \<in> F \<Longrightarrow> synthG F None t"
proof (induction F opn t rule: synthG.induct)
  case (1 F opn a lvl tx anc cs)
  show ?case
  proof (cases "cs = []")
    case True
    then show ?thesis using "1.prems" by auto
  next
    case False
    have b: "synthG F None (last cs)"
      using "1.IH"(2)[OF False] "1.prems" False by auto
    show ?thesis using False b "1.prems" by auto
  qed
qed

lemma synthG_graft_last:
  "synthG F (Some (Num lvl)) t \<Longrightarrow> Suc d = length (spine t) \<Longrightarrow>
   synthG F (Some (Num lvl)) (graft d (leaf a lvl tx anc) t)"
proof (induction d arbitrary: t)
  case 0
  obtain b l x y cs where t: "t = TocTree b l x y cs" by (cases t)
  with 0(2) have e: "cs = []" by (auto split: if_splits)
  show ?case using 0(1) t e by (auto simp: leaf_def)
next
  case (Suc d)
  obtain b l x y cs where t: "t = TocTree b l x y cs" by (cases t)
  with Suc.prems(2) have ne: "cs \<noteq> []" and d: "Suc d = length (spine (last cs))"
    by (auto split: if_splits)
  have sl: "synthG F (Some (Num lvl)) (last cs)" using Suc.prems(1) t ne by simp
  note IH = Suc.IH[OF sl d]
  let ?g = "graft d (leaf a lvl tx anc) (last cs)"
  have hd': "n_level (hd (butlast cs @ [?g])) = n_level (hd cs)"
    using ne by (cases cs) (auto split: if_splits)
  have tl': "n_addr ` set (tl (butlast cs @ [?g])) = n_addr ` set (tl cs)"
  proof -
    have "map n_addr (butlast cs @ [?g]) = map n_addr (butlast cs @ [last cs])" by simp
    also have "\<dots> = map n_addr cs" using ne by simp
    finally have "map n_addr (tl (butlast cs @ [?g])) = map n_addr (tl cs)"
      by (simp add: map_tl)
    then show ?thesis by (metis list.set_map)
  qed
  have old: "\<forall>c\<in>set (tl cs). n_addr c \<in> F" using Suc.prems(1) t ne by simp
  have tlF: "\<forall>c\<in>set (tl (butlast cs @ [?g])). n_addr c \<in> F"
  proof
    fix c assume "c \<in> set (tl (butlast cs @ [?g]))"
    then have "n_addr c \<in> n_addr ` set (tl cs)" unfolding tl'[symmetric] by (rule imageI)
    then show "n_addr c \<in> F" using old by auto
  qed
  have bl: "\<forall>c\<in>set (butlast cs). synthG F None c" using Suc.prems(1) t ne by simp
  have hdl: "b \<notin> F \<longrightarrow> n_level (hd cs) = l" using Suc.prems(1) t ne by simp
  show ?case
    unfolding t using ne IH hd' tlF bl hdl by simp
qed


lemma synthG_children:
  assumes "synthG F None (TocTree b l x y cs)" and "c \<in> set cs"
  shows "synthG F None c"
proof -
  have ne: "cs \<noteq> []" using assms(2) by auto
  then have "cs = butlast cs @ [last cs]" by simp
  then have "c \<in> set (butlast cs) \<or> c = last cs"
    using assms(2) by (metis Un_iff insert_iff list.set(2) set_append empty_iff list.set(1))
  then show ?thesis using assms(1) ne by auto
qed

lemma synthG_graft_inner:
  "synthG F None t \<Longrightarrow> Suc d < length (spine t) \<Longrightarrow> a \<in> F \<Longrightarrow>
   synthG F None (graft d (leaf a lvl tx anc) t)"
proof (induction d arbitrary: t)
  case 0
  obtain b l x y cs where t: "t = TocTree b l x y cs" by (cases t)
  with 0(2) have ne: "cs \<noteq> []" by (auto split: if_splits)
  have kids: "\<forall>c\<in>set cs. synthG F None c"
    using synthG_children[of F b l x y cs] 0(1) t by blast
  have old: "\<forall>c\<in>set (tl cs). n_addr c \<in> F" using 0(1) t ne by simp
  have hdl: "b \<notin> F \<longrightarrow> n_level (hd cs) = l" using 0(1) t ne by simp
  have tlF: "\<forall>c\<in>set (tl (cs @ [leaf a lvl tx anc])). n_addr c \<in> F"
    using old ne 0(3) by (cases cs) (auto simp: leaf_def)
  have lf: "synthG F None (leaf a lvl tx anc)" using 0(3) by (simp add: leaf_def)
  show ?case
    unfolding t using ne kids tlF hdl lf by simp
next
  case (Suc d)
  obtain b l x y cs where t: "t = TocTree b l x y cs" by (cases t)
  with Suc.prems(2) have ne: "cs \<noteq> []" and d: "Suc d < length (spine (last cs))"
    by (auto split: if_splits)
  have sl: "synthG F None (last cs)" using Suc.prems(1) t ne by simp
  note IH = Suc.IH[OF sl d Suc.prems(3)]
  let ?g = "graft d (leaf a lvl tx anc) (last cs)"
  have hd': "n_level (hd (butlast cs @ [?g])) = n_level (hd cs)"
    using ne by (cases cs) (auto split: if_splits)
  have tl': "n_addr ` set (tl (butlast cs @ [?g])) = n_addr ` set (tl cs)"
  proof -
    have "map n_addr (butlast cs @ [?g]) = map n_addr (butlast cs @ [last cs])" by simp
    also have "\<dots> = map n_addr cs" using ne by simp
    finally have "map n_addr (tl (butlast cs @ [?g])) = map n_addr (tl cs)"
      by (simp add: map_tl)
    then show ?thesis by (metis list.set_map)
  qed
  have old: "\<forall>c\<in>set (tl cs). n_addr c \<in> F" using Suc.prems(1) t ne by simp
  have tlF: "\<forall>c\<in>set (tl (butlast cs @ [?g])). n_addr c \<in> F"
  proof
    fix c assume "c \<in> set (tl (butlast cs @ [?g]))"
    then have "n_addr c \<in> n_addr ` set (tl cs)" unfolding tl'[symmetric] by (rule imageI)
    then show "n_addr c \<in> F" using old by auto
  qed
  have bl: "\<forall>c\<in>set (butlast cs). synthG F None c" using Suc.prems(1) t ne by simp
  have hdl: "b \<notin> F \<longrightarrow> n_level (hd cs) = l" using Suc.prems(1) t ne by simp
  show ?case
    unfolding t using ne IH hd' tlF bl hdl by simp
qed

lemma syntheticLevels_synthG:
  "synthG (set filled) None t \<Longrightarrow> syntheticLevels filled t"
proof (induction t)
  case (TocTree a lvl tx anc cs)
  have kids: "syntheticLevels filled c" if c: "c \<in> set cs" for c
    using TocTree.IH[OF c] synthG_children[OF TocTree.prems c] .
  show ?case
  proof (cases "cs = []")
    case True
    then show ?thesis using TocTree.prems by simp
  next
    case False
    then show ?thesis using TocTree.prems kids by (simp add: list_all_iff)
  qed
qed

lemma levelsByDepth_finite: "levelsByDepth filled l t \<Longrightarrow> n_level t \<noteq> Infinity"
  by (cases t) (auto split: if_splits)

lemma syntheticNotNext_levels:
  "levelsByDepth filled l t \<Longrightarrow> syntheticLevels filled t \<Longrightarrow> syntheticNotNext filled t"
proof (induction t arbitrary: l)
  case (TocTree a lvl tx anc cs)
  have "(n_addr c \<notin> set filled \<longrightarrow> n_level c \<noteq> jsPlus1 lvl) \<and> syntheticNotNext filled c"
    if c: "c \<in> set cs" for c
  proof -
    have lc: "levelsByDepth filled (l + 1) c" and sc: "syntheticLevels filled c"
      using TocTree.prems c by (simp_all add: list_all_iff)
    have rec: "syntheticNotNext filled c" by (rule TocTree.IH[OF c lc sc])
    have "n_level c \<noteq> jsPlus1 lvl" if nf: "n_addr c \<notin> set filled"
    proof -
      have ne: "cs \<noteq> []" using c by auto
      have "c \<notin> set (tl cs)" using TocTree.prems(2) nf by (auto simp: list_all_iff)
      then have chd: "c = hd cs" using c ne by (cases cs) auto
      have big: "jsLess (Num (l + 1)) (n_level c)" "n_level c \<noteq> Infinity"
        using lc nf by (cases c; simp)+
      show ?thesis
      proof (cases "a \<in> set filled")
        case True
        then have "lvl = Num l" using TocTree.prems(1) by simp
        then show ?thesis using big by (cases "n_level c") auto
      next
        case False
        then have "n_level (hd cs) = lvl" using TocTree.prems(2) by simp
        then show ?thesis using chd big by (cases lvl) auto
      qed
    qed
    then show ?thesis using rec by simp
  qed
  then show ?case by (simp add: list_all_iff)
qed

lemma descend_shape:
  "shape b t \<Longrightarrow>
   \<exists>t'. shape (descend j lvl b) t' \<and>
        preorder 0 t' = preorder 0 t @ synthVisits (length (spine t)) (length (heap b)) lvl j \<and>
        length (spine t') = length (spine t) + j \<and>
        length (heap (descend j lvl b)) = length (heap b) + j \<and>
        (\<forall>F. synthG F (Some (Num lvl)) t \<longrightarrow> synthG F (Some (Num lvl)) t')"
proof (induction j arbitrary: b t)
  case 0
  then show ?case by (intro exI[of _ t]) (simp add: synthVisits_def)
next
  case (Suc j)
  let ?d = "length (spine t) - 1"
  let ?n = "length (heap b)"
  let ?b1 = "\<lparr> heap = snd (addListItem lvl None None (spine t ! ?d) (heap b)),
               currentRootNode = spine t ! ?d, prevListItem = ?n \<rparr>"
  let ?t1 = "graft ?d (leaf ?n lvl None None) t"
  have d: "?d < length (spine t)" by simp
  note A = addListItem_shape[OF Suc.prems d, of lvl None None]
  have prev: "prevListItem b = spine t ! ?d" by (rule shape_prev[OF Suc.prems])
  have step: "descend (Suc j) lvl b = descend j lvl ?b1"
    using A(4) by (auto simp: prev Let_def split: prod.split)
  from Suc.IH[OF A(1)] obtain t' where t':
    "shape (descend j lvl ?b1) t'"
    "preorder 0 t' = preorder 0 ?t1 @ synthVisits (length (spine ?t1)) (length (heap ?b1)) lvl j"
    "length (spine t') = length (spine ?t1) + j"
    "length (heap (descend j lvl ?b1)) = length (heap ?b1) + j"
    "\<forall>F. synthG F (Some (Num lvl)) ?t1 \<longrightarrow> synthG F (Some (Num lvl)) t'"
    by blast
  have g1: "synthG F (Some (Num lvl)) ?t1" if "synthG F (Some (Num lvl)) t" for F
    by (rule synthG_graft_last[OF that]) simp
  have new: "\<forall>F. synthG F (Some (Num lvl)) t \<longrightarrow> synthG F (Some (Num lvl)) t'"
    using t'(5) g1 by blast
  have sl: "length (spine ?t1) = Suc (length (spine t))"
    using spine_graft[OF d, of ?n lvl None None] by simp
  have p1: "preorder 0 ?t1 = preorder 0 t @
      [\<lparr> v_depth = length (spine t), v_addr = ?n, v_level = Num lvl, v_text = None, v_anchor = None \<rparr>]"
    using preorder_graft[OF d, of 0 ?n lvl None None] by simp
  show ?case
    unfolding step using t'(1-4) A(2) sl p1 new
    by (intro exI[of _ t']) (simp add: synthVisits_Suc)
qed

lemma addStep_shape:
  assumes "shape b t"
  shows "addStep lvl b = \<lparr> heap = snd (addListItem lvl None None (prevListItem b) (heap b)),
                           currentRootNode = prevListItem b, prevListItem = length (heap b) \<rparr>"
proof -
  have d: "length (spine t) - 1 < length (spine t)" by simp
  have "prevListItem b = spine t ! (length (spine t) - 1)" by (rule shape_prev[OF assms])
  with addListItem_shape(4)[OF assms d, of lvl None None]
  have "fst (addListItem lvl None None (prevListItem b) (heap b)) = length (heap b)" by simp
  then show ?thesis by (auto simp: addStep_def Let_def split: prod.split)
qed

lemma treeStep_bigger:
  assumes inv: "treeInv L b t" and big: "L + int (length (spine t)) - 1 < h_level h"
  shows "\<exists>b' t' syn. treeStep b h = Inr b' \<and> stepResult L b t h b' t' syn"
proof -
  let ?l = "h_level h" and ?p = "L + int (length (spine t)) - 1"
  have sh: "shape b t" and lv: "t_level (heap b ! prevListItem b) = Num ?p"
    using inv unfolding treeInv_def by simp_all
  obtain j where j: "nat (?l - ?p) = Suc j" using big by (cases "nat (?l - ?p)") auto
  let ?b0 = "descend j ?l b"
  from descend_shape[OF sh, of j ?l] obtain t0 where t0:
    "shape ?b0 t0"
    "preorder 0 t0 = preorder 0 t @ synthVisits (length (spine t)) (length (heap b)) ?l j"
    "length (spine t0) = length (spine t) + j"
    "length (heap ?b0) = length (heap b) + j"
    "\<forall>F. synthG F (Some (Num ?l)) t \<longrightarrow> synthG F (Some (Num ?l)) t0"
    by blast
  let ?c = "prevListItem ?b0" and ?n0 = "length (heap ?b0)"
  let ?d = "length (spine t0) - 1"
  have d: "?d < length (spine t0)" by simp
  have c: "?c = spine t0 ! ?d" by (rule shape_prev[OF t0(1)])
  have cb: "?c < ?n0" unfolding c by (rule spine_bound[OF t0(1) d])
  let ?b' = "\<lparr> heap = snd (addListItem ?l (h_text h) (h_anchor h) (spine t0 ! ?d) (heap ?b0)),
               currentRootNode = spine t0 ! ?d, prevListItem = ?n0 \<rparr>"
  let ?t' = "graft ?d (leaf ?n0 ?l (h_text h) (h_anchor h)) t0"
  note A = addListItem_shape[OF t0(1) d, of ?l "h_text h" "h_anchor h"]
  have b1: "descend (Suc j) ?l b =
      \<lparr> heap = snd (addListItem ?l None None ?c (heap ?b0)), currentRootNode = ?c, prevListItem = ?n0 \<rparr>"
    unfolding descend_Suc_end by (rule addStep_shape[OF t0(1)])
  have "treeStep b h = Inr ((descend (Suc j) ?l b)\<lparr> heap :=
            (heap (descend (Suc j) ?l b))[prevListItem (descend (Suc j) ?l b) :=
               (heap (descend (Suc j) ?l b) ! prevListItem (descend (Suc j) ?l b))
                 \<lparr> t_text := h_text h, t_anchor := h_anchor h \<rparr>] \<rparr>)"
    unfolding treeStep_def lv using big j by (simp add: Let_def del: descend.simps)
  also have "\<dots> = Inr ?b'"
    unfolding b1 using c addListItem_fill[OF cb, where lvl = ?l and tx = "h_text h" and anc = "h_anchor h"]
    by simp
  finally have step: "treeStep b h = Inr ?b'" .
  have pre: "preorder 0 ?t' = preorder 0 t @ synthVisits (length (spine t)) (length (heap b)) ?l j @
               [filledVisit L (prevListItem ?b') h]"
  proof -
    have "int (length (spine t)) + int j = ?l - L" using j big by linarith
    then have "nat (?l - L) = length (spine t) + j" by linarith
    then show ?thesis
      using preorder_graft[OF d, of 0 ?n0 ?l "h_text h" "h_anchor h"] t0(2,3)
      by (simp add: filledVisit_def)
  qed
  have sl: "length (spine ?t') = length (spine t) + j + 1"
    using spine_graft[OF d, of ?n0 ?l "h_text h" "h_anchor h"] t0(3) by simp
  have lvl': "t_level (heap ?b' ! prevListItem ?b') = Num (L + int (length (spine ?t')) - 1)"
  proof -
    have "L + int (length (spine ?t')) - 1 = ?l" unfolding sl using j big by linarith
    then show ?thesis using A(3) by simp
  qed
  have syn: "\<forall>v\<in>set (synthVisits (length (spine t)) (length (heap b)) ?l j).
               v_level v = Num ?l \<and> L + int (v_depth v) < ?l"
  proof
    fix v assume "v \<in> set (synthVisits (length (spine t)) (length (heap b)) ?l j)"
    then obtain i where i: "i < j" and v: "v = \<lparr> v_depth = length (spine t) + i,
        v_addr = length (heap b) + i, v_level = Num ?l, v_text = None, v_anchor = None \<rparr>"
      unfolding synthVisits_def by auto
    have "L + int (length (spine t) + i) < ?l" using i j big by linarith
    then show "v_level v = Num ?l \<and> L + int (v_depth v) < ?l" using v by simp
  qed
  have ad: "map v_addr (synthVisits (length (spine t)) (length (heap b)) ?l j) =
              [length (heap b)..<length (heap b) + j]"
    unfolding synthVisits_def by (simp add: comp_def map_plus_upt)
  have ln: "length (synthVisits (length (spine t)) (length (heap b)) ?l j) = j"
    unfolding synthVisits_def by simp
  have sg: "synthG (insert (prevListItem ?b') F) None ?t'" if F: "synthG F None t" for F
  proof -
    have "synthG F (Some (Num ?l)) t0" using t0(5) synthG_open[OF F] by blast
    then have "synthG (insert ?n0 F) (Some (Num ?l)) t0" by (rule synthG_mono) auto
    then have "synthG (insert ?n0 F) (Some (Num ?l)) ?t'"
      by (rule synthG_graft_last) simp
    moreover have "last (spine ?t') = ?n0"
      using spine_graft[OF d, of ?n0 ?l "h_text h" "h_anchor h"] by simp
    ultimately have "synthG (insert ?n0 F) None ?t'" by (intro synthG_close) auto
    then show ?thesis by simp
  qed
  have "stepResult L b t h ?b' ?t' (synthVisits (length (spine t)) (length (heap b)) ?l j)"
    unfolding stepResult_def treeInv_def
    using A(1) lvl' pre ad ln A(2) t0(4) syn sg by simp
  with step show ?thesis by blast
qed

lemma treeStep_add_at:
  assumes inv: "treeInv L b t" and lo: "L < h_level h"
    and d: "d < length (spine t)" and dl: "int d = h_level h - L - 1"
    and sd: "Suc d < length (spine t)"
    and step: "treeStep b h = Inr \<lparr> heap = snd (addListItem (h_level h) (h_text h) (h_anchor h)
                                              (spine t ! d) (heap b)),
                                   currentRootNode = spine t ! d, prevListItem = length (heap b) \<rparr>"
  shows "\<exists>b' t' syn. treeStep b h = Inr b' \<and> stepResult L b t h b' t' syn"
proof -
  let ?l = "h_level h"
  have sh: "shape b t" using inv unfolding treeInv_def by simp
  let ?b' = "\<lparr> heap = snd (addListItem ?l (h_text h) (h_anchor h) (spine t ! d) (heap b)),
               currentRootNode = spine t ! d, prevListItem = length (heap b) \<rparr>"
  let ?t' = "graft d (leaf (length (heap b)) ?l (h_text h) (h_anchor h)) t"
  note A = addListItem_shape[OF sh d, of ?l "h_text h" "h_anchor h"]
  have dn: "nat (?l - L) = d + 1" using dl by linarith
  have pre: "preorder 0 ?t' = preorder 0 t @ [] @ [filledVisit L (prevListItem ?b') h]"
    using preorder_graft[OF d, of 0 "length (heap b)" ?l "h_text h" "h_anchor h"] dn
    by (simp add: filledVisit_def)
  have sl: "length (spine ?t') = d + 2"
    using spine_graft[OF d, of "length (heap b)" ?l "h_text h" "h_anchor h"] d by simp
  have lvl': "t_level (heap ?b' ! prevListItem ?b') = Num (L + int (length (spine ?t')) - 1)"
  proof -
    have "L + int (length (spine ?t')) - 1 = ?l" unfolding sl using dl by linarith
    then show ?thesis using A(3) by simp
  qed
  have sg: "synthG (insert (prevListItem ?b') F) None ?t'" if F: "synthG F None t" for F
  proof -
    have "synthG (insert (length (heap b)) F) None t" by (rule synthG_mono[OF F]) auto
    then have "synthG (insert (length (heap b)) F) None ?t'"
      by (rule synthG_graft_inner[OF _ sd]) simp
    then show ?thesis by simp
  qed
  have "stepResult L b t h ?b' ?t' []"
    unfolding stepResult_def treeInv_def
    using A(1) lvl' pre A(2) sg by simp
  with step show ?thesis by blast
qed

lemma treeStep_same:
  assumes inv: "treeInv L b t" and lo: "L < h_level h"
    and same: "h_level h = L + int (length (spine t)) - 1"
  shows "\<exists>b' t' syn. treeStep b h = Inr b' \<and> stepResult L b t h b' t' syn"
proof -
  let ?l = "h_level h" and ?d = "length (spine t) - 2"
  have sh: "shape b t" and lv: "t_level (heap b ! prevListItem b) = Num ?l"
    using inv same unfolding treeInv_def by simp_all
  have two: "2 \<le> length (spine t)" using lo same by linarith
  have d: "?d < length (spine t)" using two by simp
  have dl: "int ?d = ?l - L - 1" using two same by linarith
  have cur: "currentRootNode b = spine t ! ?d" using sh two unfolding shape_def by simp
  note A = addListItem_shape[OF sh d, of ?l "h_text h" "h_anchor h"]
  have step: "treeStep b h = Inr \<lparr> heap = snd (addListItem ?l (h_text h) (h_anchor h)
                                              (spine t ! ?d) (heap b)),
                                   currentRootNode = spine t ! ?d, prevListItem = length (heap b) \<rparr>"
    unfolding treeStep_def lv using A(4) cur
    by (cases b) (auto simp: Let_def split: prod.split)
  have sd: "Suc ?d < length (spine t)" using two by simp
  show ?thesis by (rule treeStep_add_at[OF inv lo d dl sd step])
qed

lemma treeStep_smaller:
  assumes inv: "treeInv L b t" and lo: "L < h_level h"
    and small: "h_level h < L + int (length (spine t)) - 1"
  shows "\<exists>b' t' syn. treeStep b h = Inr b' \<and> stepResult L b t h b' t' syn"
proof -
  let ?l = "h_level h" and ?p = "L + int (length (spine t)) - 1"
  let ?m = "nat (?p - ?l)"
  let ?i = "length (spine t) - 2"
  let ?d = "?i - ?m"
  have sh: "shape b t" and lv: "t_level (heap b ! prevListItem b) = Num ?p"
    using inv unfolding treeInv_def by simp_all
  have r: "repr (heap b) None t" using sh unfolding shape_def by simp
  have two: "2 \<le> length (spine t)" using lo small by linarith
  have mi: "?m \<le> ?i" using lo small two by linarith
  have i: "?i < length (spine t)" using two by simp
  have d: "?d < length (spine t)" using i by simp
  have dl: "int ?d = ?l - L - 1" using two lo small by linarith
  have cur: "currentRootNode b = spine t ! ?i" using sh two unfolding shape_def by simp
  have asc: "ascend ?m (heap b) (currentRootNode b) = Inr (spine t ! ?d)"
    unfolding cur by (rule ascend_spine[OF r mi i])
  note A = addListItem_shape[OF sh d, of ?l "h_text h" "h_anchor h"]
  have step: "treeStep b h = Inr \<lparr> heap = snd (addListItem ?l (h_text h) (h_anchor h)
                                              (spine t ! ?d) (heap b)),
                                   currentRootNode = spine t ! ?d, prevListItem = length (heap b) \<rparr>"
    unfolding treeStep_def lv using small A(4) asc
    by (auto simp: Let_def split: prod.split)
  have sd: "Suc ?d < length (spine t)" using two by simp
  show ?thesis by (rule treeStep_add_at[OF inv lo d dl sd step])
qed

lemma treeStep_inv:
  assumes "treeInv L b t" and "L < h_level h"
  shows "\<exists>b' t' syn. treeStep b h = Inr b' \<and> stepResult L b t h b' t' syn"
proof -
  consider "L + int (length (spine t)) - 1 < h_level h"
    | "h_level h = L + int (length (spine t)) - 1"
    | "h_level h < L + int (length (spine t)) - 1" by linarith
  then show ?thesis
  proof cases
    case 1
    then show ?thesis by (rule treeStep_bigger[OF assms(1)])
  next
    case 2
    then show ?thesis by (rule treeStep_same[OF assms])
  next
    case 3
    then show ?thesis by (rule treeStep_smaller[OF assms])
  qed
qed

lemma treeLoop_inv:
  "treeInv L b t \<Longrightarrow> list_all (\<lambda>h. L < h_level h) hs \<Longrightarrow>
   \<exists>b' t' new. treeLoop b hs = Inr b' \<and> loopResult L b t hs b' t' new"
proof (induction hs arbitrary: b t)
  case Nil
  have "loopResult L b t [] b t []" unfolding loopResult_def using Nil by simp
  then show ?case by auto
next
  case (Cons h rest)
  have lo: "L < h_level h" and rest: "list_all (\<lambda>h. L < h_level h) rest"
    using Cons.prems(2) by simp_all
  from treeStep_inv[OF Cons.prems(1) lo] obtain b1 t1 syn where
    step: "treeStep b h = Inr b1" and sr: "stepResult L b t h b1 t1 syn" by blast
  let ?n = "length (heap b)" and ?n1 = "length (heap b1)"
  let ?r = "filledVisit L (prevListItem b1) h"
  have inv1: "treeInv L b1 t1"
    and pre1: "preorder 0 t1 = preorder 0 t @ syn @ [?r]"
    and ad1: "map v_addr syn = [?n..<?n + length syn]"
    and prev1: "prevListItem b1 = ?n + length syn"
    and n1: "?n1 = ?n + length syn + 1"
    and syn: "\<forall>v\<in>set syn. v_level v = Num (h_level h) \<and> L + int (v_depth v) < h_level h"
    using sr unfolding stepResult_def by simp_all
  have sg1: "\<forall>F. synthG F None t \<longrightarrow> synthG (insert (prevListItem b1) F) None t1"
    using sr unfolding stepResult_def by blast
  from Cons.IH[OF inv1 rest] obtain b' t' new' where
    loop: "treeLoop b1 rest = Inr b'" and lr: "loopResult L b1 t1 rest b' t' new'" by blast
  let ?n' = "length (heap b')"
  let ?F1 = "filledNodes b1 rest"
  let ?F = "filledNodes b (h # rest)"
  have inv': "treeInv L b' t'"
    and pre': "preorder 0 t' = preorder 0 t1 @ new'"
    and ad': "map v_addr new' = [?n1..<?n']"
    and le': "?n1 \<le> ?n'"
    and F1: "set ?F1 \<subseteq> {?n1..<?n'}"
    and flt': "map visitDescriptor (filter (\<lambda>v. v_addr v \<in> set ?F1) new') = map headlineDescriptor rest"
    and lvl': "list_all (levelByDepth L ?F1) new'"
    and cr': "map (\<lambda>v. (v_addr v, v_level v)) new' = map (\<lambda>(a, l). (a, Num l)) (createdNodes b1 rest)"
    and sg': "\<forall>F. synthG F None t1 \<longrightarrow> synthG (F \<union> set ?F1) None t'"
    using lr unfolding loopResult_def by simp_all
  have F: "?F = prevListItem b1 # ?F1" using step by simp
  have synaddr: "?n \<le> v_addr v \<and> v_addr v < ?n + length syn" if "v \<in> set syn" for v
  proof -
    from that have "v_addr v \<in> set (map v_addr syn)" by simp
    then show ?thesis unfolding ad1 by simp
  qed
  have newaddr: "?n1 \<le> v_addr v \<and> v_addr v < ?n'" if "v \<in> set new'" for v
  proof -
    from that have "v_addr v \<in> set (map v_addr new')" by simp
    then show ?thesis unfolding ad' by simp
  qed
  have synF: "v_addr v \<notin> set ?F" if "v \<in> set syn" for v
    using synaddr[OF that] F1 prev1 n1 unfolding F by auto
  have newF: "(v_addr v \<in> set ?F) = (v_addr v \<in> set ?F1)" if "v \<in> set new'" for v
    using newaddr[OF that] prev1 n1 unfolding F by auto
  have rF: "v_addr ?r \<in> set ?F" unfolding F by (simp add: filledVisit_def)
  have f1: "filter (\<lambda>v. v_addr v \<in> set ?F) syn = []"
    using synF by (simp add: filter_empty_conv)
  have f2: "filter (\<lambda>v. v_addr v \<in> set ?F) new' = filter (\<lambda>v. v_addr v \<in> set ?F1) new'"
    by (rule filter_cong[OF refl]) (rule newF)
  have flt: "map visitDescriptor (filter (\<lambda>v. v_addr v \<in> set ?F) (syn @ [?r] @ new')) =
               map headlineDescriptor (h # rest)"
    using f1 f2 rF flt' by (simp add: visitDescriptor_def headlineDescriptor_def filledVisit_def)
  have l1: "list_all (levelByDepth L ?F) syn"
    unfolding list_all_iff
  proof
    fix v assume v: "v \<in> set syn"
    with syn have "v_level v = Num (h_level h)" "L + int (v_depth v) < h_level h" by auto
    then show "levelByDepth L ?F v" using synF[OF v] by (simp add: levelByDepth_def)
  qed
  have l2: "levelByDepth L ?F ?r"
    using rF lo by (simp add: levelByDepth_def filledVisit_def)
  have l3: "list_all (levelByDepth L ?F) new'"
    unfolding list_all_iff
  proof
    fix v assume v: "v \<in> set new'"
    then have "levelByDepth L ?F1 v" using lvl' by (simp add: list_all_iff)
    then show "levelByDepth L ?F v" using newF[OF v] by (simp add: levelByDepth_def)
  qed
  have ad: "map v_addr (syn @ [?r] @ new') = [?n..<?n']"
  proof -
    let ?m = "?n + length syn"
    have m: "?m < ?n'" using le' n1 by simp
    have "[?n..<?m + (?n' - ?m)] = [?n..<?m] @ [?m..<?m + (?n' - ?m)]"
      by (rule upt_add_eq_append) simp
    then have "[?n..<?n'] = [?n..<?m] @ [?m..<?n']" using m by simp
    also have "[?m..<?n'] = ?m # [Suc ?m..<?n']" by (rule upt_conv_Cons[OF m])
    finally have "[?n..<?n'] = [?n..<?n + length syn] @ [?n + length syn] @ [?n1..<?n']"
      using n1 by simp
    then show ?thesis using ad1 ad' prev1 by (simp add: filledVisit_def)
  qed
  have Fsub: "set ?F \<subseteq> {?n..<?n'}" using F1 prev1 n1 le' unfolding F by auto
  have cr: "map (\<lambda>v. (v_addr v, v_level v)) (syn @ [?r] @ new') =
              map (\<lambda>(a, l). (a, Num l)) (createdNodes b (h # rest))"
  proof -
    have "map (\<lambda>v. (v_addr v, v_level v)) syn = map (\<lambda>v. (v_addr v, Num (h_level h))) syn"
      using syn by (intro map_cong) auto
    also have "\<dots> = map (\<lambda>a. (a, Num (h_level h))) (map v_addr syn)" by (simp add: comp_def)
    finally have s1: "map (\<lambda>v. (v_addr v, v_level v)) syn =
        map (\<lambda>a. (a, Num (h_level h))) [?n..<?n + length syn]" unfolding ad1 .
    have s2: "[?n..<?n1] = [?n..<?n + length syn] @ [?n + length syn]" unfolding n1 by simp
    have s3: "createdNodes b (h # rest) =
        map (\<lambda>a. (a, h_level h)) [?n..<?n1] @ createdNodes b1 rest" using step by simp
    show ?thesis
      unfolding s3 s2 using s1 cr' prev1 by (simp add: filledVisit_def comp_def)
  qed
  have sgl: "\<forall>F. synthG F None t \<longrightarrow> synthG (F \<union> set ?F) None t'"
  proof (intro allI impI)
    fix G assume "synthG G None t"
    then have "synthG (insert (prevListItem b1) G) None t1" using sg1 by blast
    then have "synthG (insert (prevListItem b1) G \<union> set ?F1) None t'" using sg' by blast
    then show "synthG (G \<union> set ?F) None t'" unfolding F by simp
  qed
  have "loopResult L b t (h # rest) b' t' (syn @ [?r] @ new')"
    unfolding loopResult_def
    using inv' pre' pre1 ad le' n1 Fsub flt l1 l2 l3 cr sgl by simp
  moreover have "treeLoop b (h # rest) = Inr b'" using step loop by simp
  ultimately show ?case by blast
qed

lemma fold_jsMin_Num:
  "fold (\<lambda>item m. jsMin m (Num (h_level item))) hs (Num a) = Num (Min (insert a (h_level ` set hs)))"
proof (induction hs arbitrary: a)
  case Nil
  show ?case by simp
next
  case (Cons h hs)
  have "Min (insert (min a (h_level h)) (h_level ` set hs)) =
        Min (insert a (insert (h_level h) (h_level ` set hs)))"
    by (cases "hs = []") (simp_all add: min.assoc)
  with Cons.IH[of "min a (h_level h)"] show ?case by simp
qed

lemma getMinLevel_nonempty:
  "hs \<noteq> [] \<Longrightarrow> getMinLevel hs = Num (Min (h_level ` set hs))"
  by (cases hs) (simp_all add: getMinLevel_def fold_jsMin_Num)

lemma those_map_Some:
  "(\<And>c. c \<in> set cs \<Longrightarrow> g (f c) = Some c) \<Longrightarrow> those (map g (map f cs)) = Some cs"
  by (induction cs) simp_all

lemma preorder_length_child:
  assumes "c \<in> set cs"
  shows "length (preorder d c) \<le> length (concat (map (preorder d) cs))"
  using assms
proof (induction cs)
  case Nil
  then show ?case by simp
next
  case (Cons x xs)
  then show ?case by (cases "c = x") auto
qed

lemma readTree_repr:
  "repr hp p t \<Longrightarrow> length (preorder d t) \<le> fuel \<Longrightarrow> readTree fuel hp (n_addr t) = Some t"
proof (induction t arbitrary: fuel p d)
  case (TocTree a lvl tx anc cs)
  from TocTree.prems(2) obtain f where f: "fuel = Suc f" by (cases fuel) auto
  have le: "length (concat (map (preorder (Suc d)) cs)) \<le> f"
    using TocTree.prems(2) f by simp
  have kid: "readTree f hp (n_addr c) = Some c" if c: "c \<in> set cs" for c
  proof (rule TocTree.IH[OF c, of "Some a" "Suc d"])
    show "repr hp (Some a) c" using TocTree.prems(1) c by (simp add: list_all_iff)
    show "length (preorder (Suc d) c) \<le> f"
      using preorder_length_child[OF c, of "Suc d"] le by simp
  qed
  have "those (map (readTree f hp) (map n_addr cs)) = Some cs"
    by (rule those_map_Some) (rule kid)
  then show ?case using TocTree.prems(1) f by simp
qed

lemma levelsByDepth_preorder:
  "list_all (levelByDepth L filled) (preorder d t) \<Longrightarrow> levelsByDepth filled (L + int d) t"
proof (induction t arbitrary: d)
  case (TocTree a lvl tx anc cs)
  have "levelsByDepth filled (L + int (Suc d)) c" if c: "c \<in> set cs" for c
  proof (rule TocTree.IH[OF c])
    show "list_all (levelByDepth L filled) (preorder (Suc d) c)"
      using TocTree.prems c by (auto simp: list_all_iff)
  qed
  moreover have "L + int (Suc d) = L + int d + 1" by simp
  ultimately have kids: "list_all (levelsByDepth filled (L + int d + 1)) cs"
    by (simp only: list_all_iff) blast
  have node: "if a \<in> set filled then lvl = Num (L + int d)
              else jsLess (Num (L + int d)) lvl \<and> lvl \<noteq> Infinity"
    using TocTree.prems by (simp add: levelByDepth_def cong: if_cong)
  show ?case using kids node by simp
qed

lemma levelsByDepth_child_level:
  "levelsByDepth filled l t \<Longrightarrow> jsLess (Num (l - 1)) (n_level t)"
  by (cases t; cases "n_level t") (auto split: if_splits)

lemma childLevelsIncrease_levelsByDepth:
  "levelsByDepth filled l t \<Longrightarrow> childLevelsIncrease filled t"
proof (induction t arbitrary: l)
  case (TocTree a lvl tx anc cs)
  have "(a \<in> set filled \<longrightarrow> jsLess lvl (n_level c)) \<and> childLevelsIncrease filled c"
    if c: "c \<in> set cs" for c
  proof -
    have lc: "levelsByDepth filled (l + 1) c" using TocTree.prems c by (simp add: list_all_iff)
    have "jsLess (Num l) (n_level c)" using levelsByDepth_child_level[OF lc] by simp
    moreover have "a \<in> set filled \<Longrightarrow> lvl = Num l" using TocTree.prems by simp
    ultimately show ?thesis using TocTree.IH[OF c lc] by auto
  qed
  then show ?case by (simp add: list_all_iff)
qed

lemma initial_treeInv:
  assumes "jsMinus1 (getMinLevel hs) = Num L"
  shows "treeInv L (initialBuilder hs) (TocTree 0 (Num L) None None [])"
  using assms by (simp add: treeInv_def shape_def initialBuilder_def)

lemma built_tree:
  assumes ne: "hs \<noteq> []"
  defines "L \<equiv> Min (h_level ` set hs) - 1"
  shows "\<exists>t new. buildTree hs = Inr t \<and>
           preorder 0 t = \<lparr> v_depth = 0, v_addr = 0, v_level = Num L, v_text = None, v_anchor = None \<rparr> # new \<and>
           list_all (\<lambda>v. 0 < v_addr v) new \<and>
           list_all (\<lambda>a. 0 < a) (filledNodes (initialBuilder hs) hs) \<and>
           map visitDescriptor (filter (\<lambda>v. v_addr v \<in> set (filledNodes (initialBuilder hs) hs)) new) =
             map headlineDescriptor hs \<and>
           list_all (levelByDepth L (filledNodes (initialBuilder hs) hs)) new \<and>
           map (\<lambda>v. (v_addr v, v_level v)) new =
             map (\<lambda>(a, l). (a, Num l)) (createdNodes (initialBuilder hs) hs) \<and>
           synthG (set (0 # filledNodes (initialBuilder hs) hs)) None t"
proof -
  let ?b = "initialBuilder hs" and ?t = "TocTree 0 (Num L) None None []"
  have m: "jsMinus1 (getMinLevel hs) = Num L" by (simp add: getMinLevel_nonempty[OF ne] L_def)
  have inv: "treeInv L ?b ?t" by (rule initial_treeInv[OF m])
  have lv: "list_all (\<lambda>h. L < h_level h) hs"
    unfolding list_all_iff L_def
  proof
    fix h assume "h \<in> set hs"
    then have "Min (h_level ` set hs) \<le> h_level h" by simp
    then show "Min (h_level ` set hs) - 1 < h_level h" by simp
  qed
  from treeLoop_inv[OF inv lv] obtain b' t' new where
    loop: "treeLoop ?b hs = Inr b'" and lr: "loopResult L ?b ?t hs b' t' new" by blast
  have n0: "length (heap ?b) = 1" by (simp add: initialBuilder_def)
  have inv': "treeInv L b' t'"
    and pre: "preorder 0 t' = preorder 0 ?t @ new"
    and ad: "map v_addr new = [1..<length (heap b')]"
    and F: "set (filledNodes ?b hs) \<subseteq> {1..<length (heap b')}"
    and flt: "map visitDescriptor (filter (\<lambda>v. v_addr v \<in> set (filledNodes ?b hs)) new) =
                map headlineDescriptor hs"
    and lvl: "list_all (levelByDepth L (filledNodes ?b hs)) new"
    and cr: "map (\<lambda>v. (v_addr v, v_level v)) new = map (\<lambda>(a, l). (a, Num l)) (createdNodes ?b hs)"
    using lr unfolding loopResult_def n0 by simp_all
  have "\<forall>F. synthG F None ?t \<longrightarrow> synthG (F \<union> set (filledNodes ?b hs)) None t'"
    using lr unfolding loopResult_def by blast
  moreover have "synthG {0} None ?t" by simp
  ultimately have "synthG ({0} \<union> set (filledNodes ?b hs)) None t'" by blast
  then have sg: "synthG (set (0 # filledNodes ?b hs)) None t'" by simp
  have r: "repr (heap b') None t'" and al: "map v_addr (preorder 0 t') = [0..<length (heap b')]"
    using inv' unfolding treeInv_def shape_def by simp_all
  have len: "length (preorder 0 t') = length (heap b')"
    using arg_cong[OF al, of length] by simp
  have a0: "n_addr t' = 0"
  proof -
    have "hd (map v_addr (preorder 0 t')) = n_addr t'" by (cases t') simp
    moreover have "length (heap b') > 0" using len by (cases t') auto
    ultimately show ?thesis unfolding al by (simp add: upt_conv_Cons)
  qed
  have "readTree (length (heap b')) (heap b') (n_addr t') = Some t'"
    by (rule readTree_repr[OF r, of 0]) (simp add: len)
  then have bt: "buildTree hs = Inr t'"
    using loop a0 by (simp add: buildTree_def flatHeadlineItemsToNestedTree_def)
  have pos: "list_all (\<lambda>v. 0 < v_addr v) new"
    unfolding list_all_iff
  proof
    fix v assume "v \<in> set new"
    then have "v_addr v \<in> set (map v_addr new)" by simp
    then show "0 < v_addr v" unfolding ad by simp
  qed
  have posF: "list_all (\<lambda>a. 0 < a) (filledNodes ?b hs)"
    unfolding list_all_iff using F by auto
  show ?thesis
    using bt pre pos posF flt lvl cr sg by (intro exI[of _ t'] exI[of _ new]) simp
qed

lemma visitHeadline_descriptor:
  "visitDescriptor v = headlineDescriptor h \<Longrightarrow> visitHeadline v = Some h"
  by (cases h) (simp add: visitDescriptor_def headlineDescriptor_def)

lemma map_visitHeadline:
  "map visitDescriptor vs = map headlineDescriptor hs \<Longrightarrow> map visitHeadline vs = map Some hs"
proof (induction vs arbitrary: hs)
  case Nil
  then show ?case by simp
next
  case (Cons v vs)
  then obtain h rest where hs: "hs = h # rest" by (cases hs) auto
  with Cons.prems have "visitDescriptor v = headlineDescriptor h"
    and "map visitDescriptor vs = map headlineDescriptor rest" by simp_all
  then show ?case unfolding hs using Cons.IH[of rest] visitHeadline_descriptor[of v h] by simp
qed

lemma build_1_3_2:
  "buildTree [\<lparr> h_level = 1, h_anchor = Some ''a'', h_text = Some ''A'' \<rparr>,
              \<lparr> h_level = 3, h_anchor = Some ''b'', h_text = Some ''B'' \<rparr>,
              \<lparr> h_level = 2, h_anchor = Some ''c'', h_text = Some ''C'' \<rparr>]
     = Inr (TocTree 0 (Num 0) None None
             [TocTree 1 (Num 1) (Some ''A'') (Some ''a'')
               [TocTree 2 (Num 3) None None
                 [TocTree 3 (Num 3) (Some ''B'') (Some ''b'') []],
                TocTree 4 (Num 2) (Some ''C'') (Some ''c'') []]])"
  by (simp add: buildTree_def flatHeadlineItemsToNestedTree_def initialBuilder_def getMinLevel_def
      treeStep_def addListItem_def Let_def eval_nat_numeral)

lemma filled_1_3_2:
  "filledNodes (initialBuilder
      [\<lparr> h_level = 1, h_anchor = Some ''a'', h_text = Some ''A'' \<rparr>,
       \<lparr> h_level = 3, h_anchor = Some ''b'', h_text = Some ''B'' \<rparr>,
       \<lparr> h_level = 2, h_anchor = Some ''c'', h_text = Some ''C'' \<rparr>])
      [\<lparr> h_level = 1, h_anchor = Some ''a'', h_text = Some ''A'' \<rparr>,
       \<lparr> h_level = 3, h_anchor = Some ''b'', h_text = Some ''B'' \<rparr>,
       \<lparr> h_level = 2, h_anchor = Some ''c'', h_text = Some ''C'' \<rparr>] = [1, 3, 4]"
  by (simp add: initialBuilder_def getMinLevel_def treeStep_def addListItem_def Let_def eval_nat_numeral)

lemma created_1_3_2:
  "createdNodes (initialBuilder
      [\<lparr> h_level = 1, h_anchor = Some ''a'', h_text = Some ''A'' \<rparr>,
       \<lparr> h_level = 3, h_anchor = Some ''b'', h_text = Some ''B'' \<rparr>,
       \<lparr> h_level = 2, h_anchor = Some ''c'', h_text = Some ''C'' \<rparr>])
      [\<lparr> h_level = 1, h_anchor = Some ''a'', h_text = Some ''A'' \<rparr>,
       \<lparr> h_level = 3, h_anchor = Some ''b'', h_text = Some ''B'' \<rparr>,
       \<lparr> h_level = 2, h_anchor = Some ''c'', h_text = Some ''C'' \<rparr>] =
     [(1, 1), (2, 3), (3, 3), (4, 2)]"
  by (simp add: initialBuilder_def getMinLevel_def treeStep_def addListItem_def Let_def
      eval_nat_numeral upt_rec)

text \<open>
  Claim C3. For every sequence of headline descriptors the builder returns a tree, and the
  pre-order traversal of that tree, restricted to the nodes that were filled from a
  descriptor (the nodes \<open>prevListItem\<close> pointed to at the end of each round, which
  leaves out the root and the synthetic nodes), yields the descriptors of the sequence, all
  of them and in their order.
\<close>

theorem preorder_yields_descriptors:
  "\<exists>t. buildTree hs = Inr t \<and>
        map visitHeadline
          (filter (\<lambda>v. v_addr v \<in> set (filledNodes (initialBuilder hs) hs)) (preorder 0 t)) =
        map Some hs"
proof (cases "hs = []")
  case True
  then show ?thesis by (simp add: buildTree_Nil)
next
  case False
  let ?F = "filledNodes (initialBuilder hs) hs"
  from built_tree[OF False] obtain t new where
    bt: "buildTree hs = Inr t"
    and pre: "preorder 0 t = \<lparr> v_depth = 0, v_addr = 0, v_level = Num (Min (h_level ` set hs) - 1),
                                v_text = None, v_anchor = None \<rparr> # new"
    and posF: "list_all (\<lambda>a. 0 < a) ?F"
    and flt: "map visitDescriptor (filter (\<lambda>v. v_addr v \<in> set ?F) new) = map headlineDescriptor hs"
    by blast
  have "0 \<notin> set ?F" using posF by (auto simp: list_all_iff)
  then have "filter (\<lambda>v. v_addr v \<in> set ?F) (preorder 0 t) = filter (\<lambda>v. v_addr v \<in> set ?F) new"
    unfolding pre by simp
  with map_visitHeadline[OF flt] bt show ?thesis by simp
qed

theorem preorder_yields_descriptors_witness:
  "map visitHeadline
     (filter (\<lambda>v. v_addr v \<in> set [1, 3, 4])
        (preorder 0 (TocTree 0 (Num 0) None None
             [TocTree 1 (Num 1) (Some ''A'') (Some ''a'')
               [TocTree 2 (Num 3) None None
                 [TocTree 3 (Num 3) (Some ''B'') (Some ''b'') []],
                TocTree 4 (Num 2) (Some ''C'') (Some ''c'') []]]))) =
   map Some [\<lparr> h_level = 1, h_anchor = Some ''a'', h_text = Some ''A'' \<rparr>,
             \<lparr> h_level = 3, h_anchor = Some ''b'', h_text = Some ''B'' \<rparr>,
             \<lparr> h_level = 2, h_anchor = Some ''c'', h_text = Some ''C'' \<rparr>]"
  using preorder_yields_descriptors[of
      "[\<lparr> h_level = 1, h_anchor = Some ''a'', h_text = Some ''A'' \<rparr>,
        \<lparr> h_level = 3, h_anchor = Some ''b'', h_text = Some ''B'' \<rparr>,
        \<lparr> h_level = 2, h_anchor = Some ''c'', h_text = Some ''C'' \<rparr>]"]
  unfolding build_1_3_2 filled_1_3_2 by blast

text \<open>
  Claim C2, as the code has it. In the tree built from a non-empty sequence the root has
  the least level minus one, and every node filled from a descriptor has the root's level
  plus its depth; hence the level of every child of the root or of a filled node is
  greater than its parent's level. Every node carries the level of the headline in whose
  round it was created. So does a synthetic node: its level is greater than the root's
  level plus its depth, it is the level of its first child, and it is never the next
  level after its parent's; and only a first child is ever synthetic.
\<close>

theorem levels_follow_depth:
  assumes "hs \<noteq> []"
  shows "\<exists>t. buildTree hs = Inr t \<and>
             n_level t = Num (Min (h_level ` set hs) - 1) \<and>
             levelsByDepth (0 # filledNodes (initialBuilder hs) hs) (Min (h_level ` set hs) - 1) t \<and>
             childLevelsIncrease (0 # filledNodes (initialBuilder hs) hs) t \<and>
             map (\<lambda>v. (v_addr v, v_level v)) (tl (preorder 0 t)) =
               map (\<lambda>(a, l). (a, Num l)) (createdNodes (initialBuilder hs) hs) \<and>
             syntheticLevels (0 # filledNodes (initialBuilder hs) hs) t \<and>
             syntheticNotNext (0 # filledNodes (initialBuilder hs) hs) t"
proof -
  let ?F = "filledNodes (initialBuilder hs) hs" and ?L = "Min (h_level ` set hs) - 1"
  let ?root = "\<lparr> v_depth = 0, v_addr = 0, v_level = Num ?L, v_text = None, v_anchor = None \<rparr>"
  from built_tree[OF assms] obtain t new where
    bt: "buildTree hs = Inr t"
    and pre: "preorder 0 t = ?root # new"
    and pos: "list_all (\<lambda>v. 0 < v_addr v) new"
    and lvl: "list_all (levelByDepth ?L ?F) new"
    and cr: "map (\<lambda>v. (v_addr v, v_level v)) new =
               map (\<lambda>(a, l). (a, Num l)) (createdNodes (initialBuilder hs) hs)"
    and sg: "synthG (set (0 # ?F)) None t"
    by blast
  have "levelByDepth ?L (0 # ?F) v" if v: "v \<in> set new" for v
  proof -
    have "0 < v_addr v" and "levelByDepth ?L ?F v" using pos lvl v by (simp_all add: list_all_iff)
    then show ?thesis by (simp add: levelByDepth_def)
  qed
  moreover have "levelByDepth ?L (0 # ?F) ?root" by (simp add: levelByDepth_def)
  ultimately have "list_all (levelByDepth ?L (0 # ?F)) (preorder 0 t)"
    unfolding pre by (simp add: list_all_iff)
  from levelsByDepth_preorder[OF this] have l: "levelsByDepth (0 # ?F) ?L t" by simp
  have c: "childLevelsIncrease (0 # ?F) t" by (rule childLevelsIncrease_levelsByDepth[OF l])
  have r: "n_level t = Num ?L" using pre by (cases t) simp
  have e: "map (\<lambda>v. (v_addr v, v_level v)) (tl (preorder 0 t)) =
             map (\<lambda>(a, l). (a, Num l)) (createdNodes (initialBuilder hs) hs)"
    unfolding pre using cr by simp
  have s: "syntheticLevels (0 # ?F) t" by (rule syntheticLevels_synthG[OF sg])
  have n: "syntheticNotNext (0 # ?F) t" by (rule syntheticNotNext_levels[OF l s])
  show ?thesis using bt r l c e s n by blast
qed

theorem levels_follow_depth_witness:
  "levelsByDepth [0, 1, 3, 4] 0
     (TocTree 0 (Num 0) None None
             [TocTree 1 (Num 1) (Some ''A'') (Some ''a'')
               [TocTree 2 (Num 3) None None
                 [TocTree 3 (Num 3) (Some ''B'') (Some ''b'') []],
                TocTree 4 (Num 2) (Some ''C'') (Some ''c'') []]]) \<and>
   childLevelsIncrease [0, 1, 3, 4]
     (TocTree 0 (Num 0) None None
             [TocTree 1 (Num 1) (Some ''A'') (Some ''a'')
               [TocTree 2 (Num 3) None None
                 [TocTree 3 (Num 3) (Some ''B'') (Some ''b'') []],
                TocTree 4 (Num 2) (Some ''C'') (Some ''c'') []]]) \<and>
   map (\<lambda>v. (v_addr v, v_level v)) (tl (preorder 0
     (TocTree 0 (Num 0) None None
             [TocTree 1 (Num 1) (Some ''A'') (Some ''a'')
               [TocTree 2 (Num 3) None None
                 [TocTree 3 (Num 3) (Some ''B'') (Some ''b'') []],
                TocTree 4 (Num 2) (Some ''C'') (Some ''c'') []]]))) =
     [(1, Num 1), (2, Num 3), (3, Num 3), (4, Num 2)] \<and>
   syntheticLevels [0, 1, 3, 4]
     (TocTree 0 (Num 0) None None
             [TocTree 1 (Num 1) (Some ''A'') (Some ''a'')
               [TocTree 2 (Num 3) None None
                 [TocTree 3 (Num 3) (Some ''B'') (Some ''b'') []],
                TocTree 4 (Num 2) (Some ''C'') (Some ''c'') []]]) \<and>
   syntheticNotNext [0, 1, 3, 4]
     (TocTree 0 (Num 0) None None
             [TocTree 1 (Num 1) (Some ''A'') (Some ''a'')
               [TocTree 2 (Num 3) None None
                 [TocTree 3 (Num 3) (Some ''B'') (Some ''b'') []],
                TocTree 4 (Num 2) (Some ''C'') (Some ''c'') []]])"
proof -
  let ?hs = "[\<lparr> h_level = 1, h_anchor = Some ''a'', h_text = Some ''A'' \<rparr>,
        \<lparr> h_level = 3, h_anchor = Some ''b'', h_text = Some ''B'' \<rparr>,
        \<lparr> h_level = 2, h_anchor = Some ''c'', h_text = Some ''C'' \<rparr>]"
  have ne: "?hs \<noteq> []" by simp
  have m: "Min (h_level ` set ?hs) - 1 = 0" by simp
  have c: "map (\<lambda>(a, l). (a, Num l)) (createdNodes (initialBuilder ?hs) ?hs) =
             [(1, Num 1), (2, Num 3), (3, Num 3), (4, Num 2)]"
    unfolding created_1_3_2 by simp
  from levels_follow_depth[OF ne] show ?thesis
    unfolding build_1_3_2 filled_1_3_2 m c by blast
qed

text \<open>
  The claim as stated fails below a synthetic node. For the levels 1, 4, 3 the first
  synthetic node has level 4; its first child, the second synthetic node, has level 4 as
  well, and its second child, the headline of level 3, a smaller one.
\<close>

theorem synthetic_level_counterexample:
  "buildTree [\<lparr> h_level = 1, h_anchor = Some ''a'', h_text = Some ''A'' \<rparr>,
              \<lparr> h_level = 4, h_anchor = Some ''b'', h_text = Some ''B'' \<rparr>,
              \<lparr> h_level = 3, h_anchor = Some ''c'', h_text = Some ''C'' \<rparr>]
     = Inr (TocTree 0 (Num 0) None None
             [TocTree 1 (Num 1) (Some ''A'') (Some ''a'')
               [TocTree 2 (Num 4) None None
                 [TocTree 3 (Num 4) None None
                   [TocTree 4 (Num 4) (Some ''B'') (Some ''b'') []],
                  TocTree 5 (Num 3) (Some ''C'') (Some ''c'') []]]]) \<and>
   \<not> strictlyIncreasing (TocTree 0 (Num 0) None None
             [TocTree 1 (Num 1) (Some ''A'') (Some ''a'')
               [TocTree 2 (Num 4) None None
                 [TocTree 3 (Num 4) None None
                   [TocTree 4 (Num 4) (Some ''B'') (Some ''b'') []],
                  TocTree 5 (Num 3) (Some ''C'') (Some ''c'') []]]])"
  by (simp add: buildTree_def flatHeadlineItemsToNestedTree_def initialBuilder_def getMinLevel_def
      treeStep_def addListItem_def Let_def eval_nat_numeral)

end
